theory Spec2Isabelle
  imports Complex_Main "HOL-Library.AList" "HOL-Library.Multiset"
begin

section \<open>Common data\<close>

text \<open>
  Paths and file contents are Python \<open>str\<close> and \<open>bytes\<close> values; both are modelled as
  \<open>string\<close> (a list of bytes). Python exceptions are values of \<open>py_error\<close>; a fallible
  operation returns \<open>py_error + 'a\<close> with \<open>Inl\<close> for the exception raised.
\<close>

type_synonym path = string

datatype py_error =
    OSError
  | AttributeError
  | ValueError
  | IndexError
  | KeyError
  | ZeroDivisionError
  | RecursionError

text \<open>\<open>str(e)\<close>, the text stored in the \<open>details\<close> column of a failure.\<close>

fun str_of_error :: "py_error \<Rightarrow> string" where
  "str_of_error OSError = ''OSError''"
| "str_of_error AttributeError = ''AttributeError''"
| "str_of_error ValueError = ''ValueError''"
| "str_of_error IndexError = ''IndexError''"
| "str_of_error KeyError = ''KeyError''"
| "str_of_error ZeroDivisionError = ''ZeroDivisionError''"
| "str_of_error RecursionError = ''RecursionError''"

section \<open>The audit log: \<open>utils/logger.py\<close>\<close>

text \<open>
  The SQLite database of \<open>Logger\<close> is the state: the rows of the two tables in insertion
  order, the two AUTOINCREMENT counters, and the clock that \<open>CURRENT_TIMESTAMP\<close> reads.
  Timestamps are points of a linear order (\<open>nat\<close> for the operations table, \<open>rat\<close> for
  the file times, which Python keeps as floats). The text log written through the
  \<open>logging\<close> module is not part of the model.
\<close>

record operation =
  op_id :: nat
  op_timestamp :: nat
  operation_type :: string
  source_path :: string
  destination_path :: "string option"
  status :: string
  details :: string

record metadata_row =
  meta_id :: nat
  col_file_path :: string
  col_file_hash :: string
  col_file_type :: string
  col_file_size :: int
  col_last_modified :: rat
  col_created_at :: rat

record logger =
  operations :: "operation list"
  operations_seq :: nat
  file_metadata :: "metadata_row list"
  file_metadata_seq :: nat
  current_timestamp :: nat

text \<open>\<open>_init_db\<close>: both tables are created empty.\<close>

definition init_db :: "nat \<Rightarrow> logger" where
  "init_db now =
     \<lparr>operations = [], operations_seq = 0, file_metadata = [], file_metadata_seq = 0,
      current_timestamp = now\<rparr>"

text \<open>\<open>log_operation\<close>: \<open>INSERT INTO operations\<close>; the id and the timestamp are the
  column defaults.\<close>

definition log_operation ::
  "logger \<Rightarrow> string \<Rightarrow> string \<Rightarrow> string option \<Rightarrow> string \<Rightarrow> string \<Rightarrow> logger" where
  "log_operation lg otype src dst st det =
     lg\<lparr>operations := operations lg @
           [\<lparr>op_id = Suc (operations_seq lg), op_timestamp = current_timestamp lg,
             operation_type = otype, source_path = src, destination_path = dst,
             status = st, details = det\<rparr>],
        operations_seq := Suc (operations_seq lg)\<rparr>"

text \<open>
  \<open>log_file_metadata\<close>: \<open>INSERT OR REPLACE INTO file_metadata\<close>. The column
  \<open>file_path\<close> is \<open>UNIQUE\<close>, so SQLite first deletes every row with the same
  \<open>file_path\<close> and then inserts the new row under a fresh id.
\<close>

definition log_file_metadata ::
  "logger \<Rightarrow> string \<Rightarrow> string \<Rightarrow> string \<Rightarrow> int \<Rightarrow> rat \<Rightarrow> rat \<Rightarrow> logger" where
  "log_file_metadata lg fp fh ft fsz lm ca =
     lg\<lparr>file_metadata := [r \<leftarrow> file_metadata lg. col_file_path r \<noteq> fp] @
           [\<lparr>meta_id = Suc (file_metadata_seq lg), col_file_path = fp, col_file_hash = fh,
             col_file_type = ft, col_file_size = fsz, col_last_modified = lm, col_created_at = ca\<rparr>],
        file_metadata_seq := Suc (file_metadata_seq lg)\<rparr>"

text \<open>The snapshots stored for a path: \<open>SELECT ... FROM file_metadata WHERE file_path = ?\<close>,
  without the row id (the columns carry the prefix \<open>col_\<close> here).\<close>

definition snapshots :: "logger \<Rightarrow> string \<Rightarrow> (string \<times> string \<times> int \<times> rat \<times> rat) list" where
  "snapshots lg fp =
     map (\<lambda>r. (col_file_hash r, col_file_type r, col_file_size r, col_last_modified r, col_created_at r))
       [r \<leftarrow> file_metadata lg. col_file_path r = fp]"

text \<open>
  \<open>generate_report\<close>. The query keeps the rows of the optional time window and groups
  them by \<open>(operation_type, status)\<close>, one result row per group with its count (SQL
  leaves the order of the groups open; the report does not depend on it).
\<close>

definition in_window :: "nat option \<Rightarrow> nat option \<Rightarrow> operation \<Rightarrow> bool" where
  "in_window start_date end_date r =
     ((case start_date of None \<Rightarrow> True | Some s \<Rightarrow> s \<le> op_timestamp r) \<and>
      (case end_date of None \<Rightarrow> True | Some e \<Rightarrow> op_timestamp r \<le> e))"

definition selected_rows :: "logger \<Rightarrow> nat option \<Rightarrow> nat option \<Rightarrow> operation list" where
  "selected_rows lg start_date end_date = [r \<leftarrow> operations lg. in_window start_date end_date r]"

definition group_key :: "operation \<Rightarrow> string \<times> string" where
  "group_key r = (operation_type r, status r)"

definition query_results ::
  "logger \<Rightarrow> nat option \<Rightarrow> nat option \<Rightarrow> ((string \<times> string) \<times> int) list" where
  "query_results lg start_date end_date =
     (let rows = selected_rows lg start_date end_date in
      map (\<lambda>k. (k, int (length [r \<leftarrow> rows. group_key r = k]))) (remdups (map group_key rows)))"

record report =
  total_operations :: int
  operations_by_type :: "(string \<times> (string \<times> int) list) list"
  success_rate :: rat

text \<open>The loop \<open>for op_type, status, count in results\<close> filling
  \<open>report['operations_by_type']\<close>, a dict of dicts (association lists in insertion order).\<close>

fun by_type_loop ::
  "((string \<times> string) \<times> int) list \<Rightarrow> (string \<times> (string \<times> int) list) list \<Rightarrow>
   py_error + (string \<times> (string \<times> int) list) list" where
  "by_type_loop [] d = Inr d"
| "by_type_loop (((op_type, st), cnt) # results) d =
     (let d1 = (if map_of d op_type = None
                then AList.update op_type [(''success'', 0), (''failure'', 0)] d else d)
      in case map_of d1 op_type of
           None \<Rightarrow> Inl KeyError
         | Some inner \<Rightarrow>
             by_type_loop results (AList.update op_type (AList.update st cnt inner) d1))"

text \<open>\<open>sum(op['success'] for op in report['operations_by_type'].values())\<close>.\<close>

fun sum_success :: "(string \<times> (string \<times> int) list) list \<Rightarrow> int \<Rightarrow> py_error + int" where
  "sum_success [] acc = Inr acc"
| "sum_success ((op_type, inner) # d) acc =
     (case map_of inner ''success'' of
        None \<Rightarrow> Inl KeyError
      | Some c \<Rightarrow> sum_success d (acc + c))"

text \<open>Python's \<open>/\<close> on two ints: a float, or \<open>ZeroDivisionError\<close>. Floats are modelled
  by the rationals they approximate.\<close>

definition py_truediv :: "int \<Rightarrow> int \<Rightarrow> py_error + rat" where
  "py_truediv a b = (if b = 0 then Inl ZeroDivisionError else Inr (of_int a / of_int b))"

definition generate_report :: "logger \<Rightarrow> nat option \<Rightarrow> nat option \<Rightarrow> py_error + report" where
  "generate_report lg start_date end_date =
     (let results = query_results lg start_date end_date;
          total = sum_list (map snd results)
      in case by_type_loop results [] of
           Inl e \<Rightarrow> Inl e
         | Inr by_type \<Rightarrow>
             (case sum_success by_type 0 of
                Inl e \<Rightarrow> Inl e
              | Inr total_success \<Rightarrow>
                  if total > 0 then
                    (case py_truediv total_success total of
                       Inl e \<Rightarrow> Inl e
                     | Inr q \<Rightarrow>
                         Inr \<lparr>total_operations = total, operations_by_type = by_type,
                              success_rate = q * 100\<rparr>)
                  else
                    Inr \<lparr>total_operations = total, operations_by_type = by_type,
                         success_rate = 0\<rparr>))"

text \<open>
  For comparison, the success rate in the words of the specification: successes divided
  by the total, 0 when there is no operation.
\<close>

definition count_successes :: "logger \<Rightarrow> nat option \<Rightarrow> nat option \<Rightarrow> nat" where
  "count_successes lg start_date end_date =
     length [r \<leftarrow> selected_rows lg start_date end_date. status r = ''success'']"

definition spec_success_rate :: "logger \<Rightarrow> nat option \<Rightarrow> nat option \<Rightarrow> rat" where
  "spec_success_rate lg start_date end_date =
     (if length (selected_rows lg start_date end_date) = 0 then 0
      else of_nat (count_successes lg start_date end_date) /
           of_nat (length (selected_rows lg start_date end_date)))"

text \<open>Notions for the proofs about the report: the \<open>'success'\<close> entry of an inner
  dict (0 when absent), its sum over the outer dict, the invariant of the outer dict
  (one entry per type, each inner dict with a \<open>'success'\<close> key), and the condition that
  the result rows still to come find no success count in their way.\<close>

definition success_of :: "(string \<times> int) list \<Rightarrow> int" where
  "success_of inner = (case map_of inner ''success'' of None \<Rightarrow> 0 | Some c \<Rightarrow> c)"

definition success_total :: "(string \<times> (string \<times> int) list) list \<Rightarrow> int" where
  "success_total d = sum_list (map (\<lambda>(t, inner). success_of inner) d)"

definition wf_by_type :: "(string \<times> (string \<times> int) list) list \<Rightarrow> bool" where
  "wf_by_type d =
     (distinct (map fst d) \<and> (\<forall>(t, inner) \<in> set d. map_of inner ''success'' \<noteq> None))"

definition fresh_success ::
  "((string \<times> string) \<times> int) list \<Rightarrow> (string \<times> (string \<times> int) list) list \<Rightarrow> bool" where
  "fresh_success rs d =
     (\<forall>t c inner. ((t, ''success''), c) \<in> set rs \<longrightarrow> map_of d t = Some inner \<longrightarrow>
        success_of inner = 0)"

section \<open>The file system and \<open>utils/file_utils.py\<close>\<close>

text \<open>
  A file system maps a path to the file stored there. A file has its bytes, whether it can
  be opened for reading, whether \<open>os.remove\<close> may delete it, its times, and the MIME
  type that libmagic reports for it. Distinct paths name distinct files.
\<close>

record file_entry =
  content :: string
  readable :: bool
  deletable :: bool
  mtime :: rat
  ctime :: rat
  mime :: string

type_synonym filesystem = "path \<rightharpoonup> file_entry"

text \<open>\<open>open(p, 'rb')\<close> and reading to the end.\<close>

definition read_bytes :: "filesystem \<Rightarrow> path \<Rightarrow> py_error + string" where
  "read_bytes fs p =
     (case fs p of
        None \<Rightarrow> Inl OSError
      | Some f \<Rightarrow> if readable f then Inr (content f) else Inl OSError)"

definition getmtime :: "filesystem \<Rightarrow> path \<Rightarrow> py_error + rat" where
  "getmtime fs p = (case fs p of None \<Rightarrow> Inl OSError | Some f \<Rightarrow> Inr (mtime f))"

definition getsize :: "filesystem \<Rightarrow> path \<Rightarrow> py_error + int" where
  "getsize fs p = (case fs p of None \<Rightarrow> Inl OSError | Some f \<Rightarrow> Inr (int (length (content f))))"

definition os_remove :: "filesystem \<Rightarrow> path \<Rightarrow> py_error + filesystem" where
  "os_remove fs p =
     (case fs p of
        None \<Rightarrow> Inl OSError
      | Some f \<Rightarrow> if deletable f then Inr (fs(p := None)) else Inl OSError)"

text \<open>An ordinary readable file, for the concrete instances of the theorems.\<close>

definition plain_file :: "string \<Rightarrow> rat \<Rightarrow> bool \<Rightarrow> file_entry" where
  "plain_file bytes t del =
     \<lparr>content = bytes, readable = True, deletable = del, mtime = t, ctime = t,
      mime = ''text/plain''\<rparr>"

text \<open>
  \<open>calculate_file_hash\<close>: \<open>getattr(hashlib, hash_type)\<close> fails for an unknown name;
  the digest of the chunks fed one by one is the digest of the whole content. The module
  \<open>hashlib\<close> is a parameter: a partial map from algorithm names to digest functions.
\<close>

definition calculate_file_hash ::
  "(string \<Rightarrow> (string \<Rightarrow> string) option) \<Rightarrow> filesystem \<Rightarrow> path \<Rightarrow> string \<Rightarrow> py_error + string" where
  "calculate_file_hash hashlib fs p hash_type =
     (case hashlib hash_type of
        None \<Rightarrow> Inl AttributeError
      | Some hash_func \<Rightarrow>
          (case read_bytes fs p of Inl e \<Rightarrow> Inl e | Inr bs \<Rightarrow> Inr (hash_func bs)))"

text \<open>\<open>get_file_type\<close>: \<open>magic.from_file(p, mime=True)\<close> opens the file.\<close>

definition get_file_type :: "filesystem \<Rightarrow> path \<Rightarrow> py_error + string" where
  "get_file_type fs p =
     (case fs p of
        None \<Rightarrow> Inl OSError
      | Some f \<Rightarrow> if readable f then Inr (mime f) else Inl OSError)"

record file_meta =
  md_size :: int
  md_created :: rat
  md_modified :: rat
  md_type :: string

definition get_file_metadata :: "filesystem \<Rightarrow> path \<Rightarrow> py_error + file_meta" where
  "get_file_metadata fs p =
     (case fs p of
        None \<Rightarrow> Inl OSError
      | Some f \<Rightarrow>
          (case get_file_type fs p of
             Inl e \<Rightarrow> Inl e
           | Inr t \<Rightarrow>
               Inr \<lparr>md_size = int (length (content f)), md_created = ctime f,
                    md_modified = mtime f, md_type = t\<rparr>))"



text \<open>\<open>str.rfind\<close> of one character: the last index holding it, or \<open>-1\<close>.\<close>

primrec rfind_from :: "char \<Rightarrow> string \<Rightarrow> int \<Rightarrow> int \<Rightarrow> int" where
  "rfind_from c [] i found = found"
| "rfind_from c (x # xs) i found = rfind_from c xs (i + 1) (if x = c then i else found)"

definition rfind :: "string \<Rightarrow> char \<Rightarrow> int" where
  "rfind p c = rfind_from c p 0 (- 1)"

text \<open>\<open>os.path.splitext\<close> (POSIX): the extension starts at the last dot of the last
  component, unless only dots precede it there.\<close>

function splitext_scan :: "string \<Rightarrow> int \<Rightarrow> int \<Rightarrow> string \<times> string" where
  "splitext_scan p filenameIndex dotIndex =
     (if filenameIndex < dotIndex then
        (if p ! nat filenameIndex \<noteq> CHR ''.'' then (take (nat dotIndex) p, drop (nat dotIndex) p)
         else splitext_scan p (filenameIndex + 1) dotIndex)
      else (p, []))"
  by pat_completeness auto
termination
  by (relation "measure (\<lambda>(p, filenameIndex, dotIndex). nat (dotIndex - filenameIndex))") auto

definition splitext :: "string \<Rightarrow> string \<times> string" where
  "splitext p =
     (let sepIndex = rfind p CHR ''/''; dotIndex = rfind p CHR ''.''
      in if dotIndex > sepIndex then splitext_scan p (sepIndex + 1) dotIndex else (p, []))"


definition startswith :: "string \<Rightarrow> string \<Rightarrow> bool" where
  "startswith s pre = (take (length pre) s = pre)"

section \<open>Exact duplicates: \<open>organized/document/duplicate_detector.py\<close>\<close>

text \<open>
  A Python dict is an association list in insertion order with one entry per key;
  \<open>AList.update\<close> is the assignment \<open>d[k] = v\<close>. \<open>hash_map\<close> is a
  \<open>defaultdict(list)\<close>: a missing key reads as the empty list.
\<close>

type_synonym hash_map = "(string \<times> path list) list"

definition hash_map_append :: "hash_map \<Rightarrow> string \<Rightarrow> path \<Rightarrow> hash_map" where
  "hash_map_append hm k p =
     AList.update k ((case map_of hm k of None \<Rightarrow> [] | Some v \<Rightarrow> v) @ [p]) hm"

text \<open>
  \<open>find_duplicates\<close>. The directory walk of \<open>list_files\<close> is outside the model: the
  function takes the list of paths it yields. The body of the loop is the \<open>try\<close> block:
  the path joins its group as soon as the hash is known, before the metadata is read.
\<close>

fun find_duplicates_loop ::
  "(string \<Rightarrow> (string \<Rightarrow> string) option) \<Rightarrow> filesystem \<Rightarrow> string \<Rightarrow> path list \<Rightarrow>
   hash_map \<times> logger \<Rightarrow> hash_map \<times> logger" where
  "find_duplicates_loop hashlib fs hash_type [] st = st"
| "find_duplicates_loop hashlib fs hash_type (file_path # files) (hm, lg) =
     find_duplicates_loop hashlib fs hash_type files
       (case calculate_file_hash hashlib fs file_path hash_type of
          Inl e \<Rightarrow>
            (hm, log_operation lg ''hash_calculation'' file_path None ''failure'' (str_of_error e))
        | Inr fh \<Rightarrow>
            (case get_file_metadata fs file_path of
               Inl e \<Rightarrow>
                 (hash_map_append hm fh file_path,
                  log_operation lg ''hash_calculation'' file_path None ''failure'' (str_of_error e))
             | Inr md \<Rightarrow>
                 (hash_map_append hm fh file_path,
                  log_file_metadata lg file_path fh (md_type md) (md_size md)
                    (md_modified md) (md_created md))))"

definition find_duplicates ::
  "(string \<Rightarrow> (string \<Rightarrow> string) option) \<Rightarrow> filesystem \<Rightarrow> logger \<Rightarrow> path list \<Rightarrow> string \<Rightarrow>
   hash_map \<times> logger" where
  "find_duplicates hashlib fs lg files hash_type =
     (case find_duplicates_loop hashlib fs hash_type files ([], lg) of
        (hm, lg') \<Rightarrow> ([(k, v) \<leftarrow> hm. length v > 1], lg'))"

text \<open>For the proofs: the group stored under a hash (\<open>hash_map[k]\<close> of the
  defaultdict), and the invariant of the first loop.\<close>

definition group_of :: "hash_map \<Rightarrow> string \<Rightarrow> path list" where
  "group_of hm k = (case map_of hm k of None \<Rightarrow> [] | Some v \<Rightarrow> v)"

definition no_empty_group :: "hash_map \<Rightarrow> bool" where
  "no_empty_group hm = (distinct (map fst hm) \<and> (\<forall>k. map_of hm k \<noteq> Some []))"

text \<open>
  Python's \<open>sorted(xs, key=..., reverse=...)\<close>: the keys are computed first, one call
  per element in order (an exception of the key function leaves \<open>sorted\<close>); the sort is
  stable, and with \<open>reverse=True\<close> the list is reversed, sorted and reversed again, which
  keeps elements of equal key in their original order.
\<close>

fun decorate :: "('a \<Rightarrow> py_error + 'k) \<Rightarrow> 'a list \<Rightarrow> py_error + ('a \<times> 'k) list" where
  "decorate key [] = Inr []"
| "decorate key (x # xs) =
     (case key x of
        Inl e \<Rightarrow> Inl e
      | Inr k \<Rightarrow> (case decorate key xs of Inl e \<Rightarrow> Inl e | Inr ds \<Rightarrow> Inr ((x, k) # ds)))"

definition sorted_py ::
  "'a list \<Rightarrow> ('a \<Rightarrow> py_error + 'k::linorder) \<Rightarrow> bool \<Rightarrow> py_error + 'a list" where
  "sorted_py xs key reverse =
     (case decorate key xs of
        Inl e \<Rightarrow> Inl e
      | Inr ds \<Rightarrow>
          Inr (map fst (if reverse then rev (sort_key snd (rev ds)) else sort_key snd ds)))"

text \<open>The \<open>if\<close>/\<open>elif\<close> chain on \<open>keep_strategy\<close>.\<close>

definition sort_files :: "filesystem \<Rightarrow> string \<Rightarrow> path list \<Rightarrow> py_error + path list" where
  "sort_files fs keep_strategy file_paths =
     (if keep_strategy = ''newest'' then sorted_py file_paths (getmtime fs) True
      else if keep_strategy = ''oldest'' then sorted_py file_paths (getmtime fs) False
      else if keep_strategy = ''largest'' then sorted_py file_paths (getsize fs) True
      else if keep_strategy = ''smallest'' then sorted_py file_paths (getsize fs) False
      else Inl ValueError)"

text \<open>The inner loop \<open>for file_to_remove in sorted_files[1:]\<close> with its \<open>try\<close>.\<close>

fun remove_loop ::
  "path \<Rightarrow> path list \<Rightarrow> path list \<times> filesystem \<times> logger \<Rightarrow> path list \<times> filesystem \<times> logger" where
  "remove_loop keep_file [] st = st"
| "remove_loop keep_file (file_to_remove # rest) (removed_files, fs, lg) =
     remove_loop keep_file rest
       (case os_remove fs file_to_remove of
          Inr fs' \<Rightarrow>
            (removed_files @ [file_to_remove], fs',
             log_operation lg ''duplicate_removal'' file_to_remove None ''success''
               (''Kept file: '' @ keep_file))
        | Inl e \<Rightarrow>
            (removed_files, fs,
             log_operation lg ''duplicate_removal'' file_to_remove None ''failure''
               (str_of_error e)))"

text \<open>The outer loop over \<open>duplicates.items()\<close>. An exception of the sort leaves the
  function; the files removed so far stay removed.\<close>

fun remove_groups ::
  "string \<Rightarrow> hash_map \<Rightarrow> path list \<times> filesystem \<times> logger \<Rightarrow>
   (py_error + path list) \<times> filesystem \<times> logger" where
  "remove_groups keep_strategy [] (removed_files, fs, lg) = (Inr removed_files, fs, lg)"
| "remove_groups keep_strategy ((file_hash, file_paths) # groups) (removed_files, fs, lg) =
     (if length file_paths \<le> 1 then remove_groups keep_strategy groups (removed_files, fs, lg)
      else
        (case sort_files fs keep_strategy file_paths of
           Inl e \<Rightarrow> (Inl e, fs, lg)
         | Inr sorted_files \<Rightarrow>
             (case sorted_files of
                [] \<Rightarrow> (Inl IndexError, fs, lg)
              | keep_file # rest \<Rightarrow>
                  remove_groups keep_strategy groups
                    (remove_loop keep_file rest (removed_files, fs, lg)))))"

definition remove_duplicates ::
  "hash_map \<Rightarrow> string \<Rightarrow> filesystem \<Rightarrow> logger \<Rightarrow> (py_error + path list) \<times> filesystem \<times> logger" where
  "remove_duplicates duplicates keep_strategy fs lg =
     remove_groups keep_strategy duplicates ([], fs, lg)"

text \<open>The member that \<open>remove_duplicates\<close> keeps of one group: \<open>sorted_files[0]\<close>.\<close>

definition keep_file_of :: "filesystem \<Rightarrow> string \<Rightarrow> path list \<Rightarrow> py_error + path" where
  "keep_file_of fs keep_strategy file_paths =
     (case sort_files fs keep_strategy file_paths of
        Inl e \<Rightarrow> Inl e
      | Inr sorted_files \<Rightarrow>
          (case sorted_files of [] \<Rightarrow> Inl IndexError | keep_file # rest \<Rightarrow> Inr keep_file))"

text \<open>
  The retained member in the words of the specification: the first member, in the order
  of the group, whose key is extreme (greatest with \<open>reverse\<close>, least without). The keys
  of existing files, as total functions for the statements.
\<close>

definition first_extreme :: "('a \<Rightarrow> 'k::linorder) \<Rightarrow> bool \<Rightarrow> 'a list \<Rightarrow> 'a option" where
  "first_extreme key reverse xs =
     find (\<lambda>x. list_all (\<lambda>y. if reverse then key y \<le> key x else key x \<le> key y) xs) xs"

definition mtime_of :: "filesystem \<Rightarrow> path \<Rightarrow> rat" where
  "mtime_of fs p = (case fs p of None \<Rightarrow> 0 | Some f \<Rightarrow> mtime f)"

definition size_of :: "filesystem \<Rightarrow> path \<Rightarrow> int" where
  "size_of fs p = (case fs p of None \<Rightarrow> 0 | Some f \<Rightarrow> int (length (content f)))"

text \<open>
  For the statements about \<open>remove_duplicates\<close>: whether \<open>os.remove\<close> of a path goes
  through, the members of a group that the function tries to remove (all but the head of
  the sorted list, none for a group of fewer than two members), the same for a whole
  mapping, in the order of processing, and the rows of the operations table reduced to
  type, source path and status.
\<close>

definition can_delete :: "filesystem \<Rightarrow> path \<Rightarrow> bool" where
  "can_delete fs p = (case fs p of None \<Rightarrow> False | Some f \<Rightarrow> deletable f)"

definition to_remove :: "filesystem \<Rightarrow> string \<Rightarrow> path list \<Rightarrow> path list" where
  "to_remove fs keep_strategy file_paths =
     (if length file_paths \<le> 1 then []
      else (case sort_files fs keep_strategy file_paths of
              Inl e \<Rightarrow> []
            | Inr sorted_files \<Rightarrow> tl sorted_files))"

definition attempted :: "filesystem \<Rightarrow> string \<Rightarrow> hash_map \<Rightarrow> path list" where
  "attempted fs keep_strategy duplicates =
     concat (map (\<lambda>(h, file_paths). to_remove fs keep_strategy file_paths) duplicates)"

definition log_rows :: "logger \<Rightarrow> (string \<times> string \<times> string) list" where
  "log_rows lg = map (\<lambda>r. (operation_type r, source_path r, status r)) (operations lg)"

definition removal_row :: "filesystem \<Rightarrow> path \<Rightarrow> string \<times> string \<times> string" where
  "removal_row fs p =
     (''duplicate_removal'', p, if can_delete fs p then ''success'' else ''failure'')"

definition valid_strategy :: "string \<Rightarrow> bool" where
  "valid_strategy keep_strategy =
     (keep_strategy \<in> set [''newest'', ''oldest'', ''largest'', ''smallest''])"

text \<open>The row logged for one attempt, given whether the removal went through.\<close>

definition status_row :: "path \<times> bool \<Rightarrow> string \<times> string \<times> string" where
  "status_row = (\<lambda>(p, ok). (''duplicate_removal'', p, if ok then ''success'' else ''failure''))"

text \<open>A small directory for the concrete instances: three copies of one content, the
  second of which cannot be deleted, and two copies of another.\<close>

definition demo_fs :: filesystem where
  "demo_fs =
     [''/d/a'' \<mapsto> plain_file ''hello'' 1 True,
      ''/d/b'' \<mapsto> plain_file ''hello'' 2 False,
      ''/d/c'' \<mapsto> plain_file ''hello'' 3 True,
      ''/d/x'' \<mapsto> plain_file ''world'' 1 True,
      ''/d/y'' \<mapsto> plain_file ''world'' 2 True]"

definition demo_groups :: hash_map where
  "demo_groups = [(''5d41'', [''/d/a'', ''/d/b'', ''/d/c'']), (''7d79'', [''/d/x'', ''/d/y''])]"

text \<open>\<open>analyze_duplicates\<close>: the two \<open>sum(...)\<close> generators (Python's \<open>sum\<close> adds from
  the left, starting at 0) and \<open>_get_duplicate_types\<close>. \<open>files[0]\<close> raises on an empty
  list.\<close>

fun sum_duplicates :: "hash_map \<Rightarrow> int \<Rightarrow> int" where
  "sum_duplicates [] acc = acc"
| "sum_duplicates ((h, files) # groups) acc =
     sum_duplicates groups (acc + (int (length files) - 1))"

fun sum_space :: "filesystem \<Rightarrow> hash_map \<Rightarrow> int \<Rightarrow> py_error + int" where
  "sum_space fs [] acc = Inr acc"
| "sum_space fs ((h, files) # groups) acc =
     (case files of
        [] \<Rightarrow> Inl IndexError
      | f # _ \<Rightarrow>
          (case getsize fs f of
             Inl e \<Rightarrow> Inl e
           | Inr sz \<Rightarrow> sum_space fs groups (acc + sz * (int (length files) - 1))))"

fun get_duplicate_types ::
  "filesystem \<Rightarrow> hash_map \<Rightarrow> (string \<times> int) list \<Rightarrow> py_error + (string \<times> int) list" where
  "get_duplicate_types fs [] type_counts = Inr type_counts"
| "get_duplicate_types fs ((h, files) # groups) type_counts =
     (case files of
        [] \<Rightarrow> Inl IndexError
      | f # _ \<Rightarrow>
          (case get_file_type fs f of
             Inl e \<Rightarrow> Inl e
           | Inr ftype \<Rightarrow>
               get_duplicate_types fs groups
                 (AList.update ftype
                    ((case map_of type_counts ftype of None \<Rightarrow> 0 | Some c \<Rightarrow> c) +
                     (int (length files) - 1))
                    type_counts)))"

record stats =
  total_duplicate_groups :: int
  total_duplicate_files :: int
  potential_space_saved :: int
  duplicate_types :: "(string \<times> int) list"

definition analyze_duplicates :: "filesystem \<Rightarrow> hash_map \<Rightarrow> py_error + stats" where
  "analyze_duplicates fs duplicates =
     (let total_duplicates = sum_duplicates duplicates 0 in
      case sum_space fs duplicates 0 of
        Inl e \<Rightarrow> Inl e
      | Inr total_space \<Rightarrow>
          (case get_duplicate_types fs duplicates [] of
             Inl e \<Rightarrow> Inl e
           | Inr types \<Rightarrow>
               Inr \<lparr>total_duplicate_groups = int (length duplicates),
                    total_duplicate_files = total_duplicates,
                    potential_space_saved = total_space,
                    duplicate_types = types\<rparr>))"

text \<open>
  For the statements about \<open>analyze_duplicates\<close>: the representative of a group (its
  first member, \<open>files[0]\<close>), the MIME type of an existing file, and the count stored
  for a type (0 when the type has no entry).
\<close>

definition representative :: "string \<times> path list \<Rightarrow> path" where
  "representative g = (case snd g of [] \<Rightarrow> [] | f # rest \<Rightarrow> f)"

definition type_of :: "filesystem \<Rightarrow> path \<Rightarrow> string" where
  "type_of fs p = (case fs p of None \<Rightarrow> [] | Some f \<Rightarrow> mime f)"

definition count_of :: "(string \<times> int) list \<Rightarrow> string \<Rightarrow> int" where
  "count_of type_counts t = (case map_of type_counts t of None \<Rightarrow> 0 | Some c \<Rightarrow> c)"

definition extra :: "string \<times> path list \<Rightarrow> int" where
  "extra g = int (length (snd g)) - 1"

definition analysable :: "filesystem \<Rightarrow> string \<times> path list \<Rightarrow> bool" where
  "analysable fs g =
     (case snd g of
        [] \<Rightarrow> False
      | f # rest \<Rightarrow> (case fs f of None \<Rightarrow> False | Some fe \<Rightarrow> readable fe))"

section \<open>The classifier: \<open>organized/document/model.py\<close>\<close>










section \<open>Similar files: \<open>duplicate_detector.py\<close>\<close>

text \<open>
  A signature is what \<open>compute_embeddings\<close> returns and \<open>find_duplicates\<close> tells apart
  with \<open>isinstance(emb, str)\<close>: a hash string, or an array of numbers.
\<close>

datatype signature = Hash string | Vector "real list"

text \<open>\<open>is_text_file\<close>: \<open>mimetypes.guess_type\<close> looks at the name only; it is a
  parameter.\<close>

definition is_text_file :: "(string \<Rightarrow> string option) \<Rightarrow> string \<Rightarrow> bool" where
  "is_text_file guess_type p =
     (case guess_type p of None \<Rightarrow> False | Some m \<Rightarrow> startswith m ''text'')"

definition compute_hash :: "(string \<Rightarrow> string) \<Rightarrow> filesystem \<Rightarrow> path \<Rightarrow> py_error + string" where
  "compute_hash sha256 fs p =
     (case read_bytes fs p of Inl e \<Rightarrow> Inl e | Inr bs \<Rightarrow> Inr (sha256 bs))"

text \<open>
  \<open>open(p, 'r', encoding='utf-8', errors='ignore').read()\<close>: decoding drops what is not
  UTF-8 and cannot fail; the decoder is a parameter.
\<close>

definition read_text :: "(string \<Rightarrow> string) \<Rightarrow> filesystem \<Rightarrow> path \<Rightarrow> py_error + string" where
  "read_text decode fs p =
     (case read_bytes fs p of Inl e \<Rightarrow> Inl e | Inr bs \<Rightarrow> Inr (decode bs))"

text \<open>
  \<open>compute_embeddings\<close>. In the text branch the method calls itself on the text it has
  read, inside the \<open>try\<close>: the text is taken for a path again. The first argument is the
  number of frames left before Python raises \<open>RecursionError\<close>; every exception of the
  text branch, that one too, is caught and gives \<open>None\<close>.
\<close>

fun compute_embeddings ::
  "(string \<Rightarrow> string option) \<Rightarrow> (string \<Rightarrow> string) \<Rightarrow> (string \<Rightarrow> string) \<Rightarrow> filesystem \<Rightarrow>
   nat \<Rightarrow> string \<Rightarrow> py_error + signature option" where
  "compute_embeddings guess_type decode sha256 fs 0 file_path = Inl RecursionError"
| "compute_embeddings guess_type decode sha256 fs (Suc depth) file_path =
     (if is_text_file guess_type file_path then
        (case read_text decode fs file_path of
           Inl e \<Rightarrow> Inr None
         | Inr text \<Rightarrow>
             (case compute_embeddings guess_type decode sha256 fs depth text of
                Inl e \<Rightarrow> Inr None
              | Inr r \<Rightarrow> Inr r))
      else
        (case compute_hash sha256 fs file_path of
           Inl e \<Rightarrow> Inl e
         | Inr h \<Rightarrow> Inr (Some (Hash h))))"

text \<open>
  \<open>find_duplicates\<close> of this module (named \<open>similar_duplicates\<close> here, the name
  \<open>find_duplicates\<close> being taken). The first loop fills the dict \<open>file_embeddings\<close>; the
  method computing a signature is an argument, so that the comparison is defined for
  every signature.
\<close>

fun embeddings_loop ::
  "(path \<Rightarrow> py_error + signature option) \<Rightarrow> path list \<Rightarrow> (path \<times> signature) list \<Rightarrow>
   py_error + (path \<times> signature) list" where
  "embeddings_loop sig_of [] file_embeddings = Inr file_embeddings"
| "embeddings_loop sig_of (file_path # file_paths) file_embeddings =
     (case sig_of file_path of
        Inl e \<Rightarrow> Inl e
      | Inr None \<Rightarrow> embeddings_loop sig_of file_paths file_embeddings
      | Inr (Some emb) \<Rightarrow>
          embeddings_loop sig_of file_paths (AList.update file_path emb file_embeddings))"

text \<open>The body of the two nested loops, for one pair of indices. \<open>cosine\<close> stands for
  \<open>cosine_similarity(...)[0][0]\<close> of scikit-learn.\<close>

definition compare_pair ::
  "(real list \<Rightarrow> real list \<Rightarrow> real) \<Rightarrow> real \<Rightarrow> (path \<times> signature) list \<Rightarrow> path list \<Rightarrow>
   nat \<Rightarrow> nat \<Rightarrow> (path \<times> path) list \<Rightarrow> py_error + (path \<times> path) list" where
  "compare_pair cosine similarity_threshold file_embeddings file_list i j duplicates =
     (let file1 = file_list ! i; file2 = file_list ! j in
      case map_of file_embeddings file1 of
        None \<Rightarrow> Inl KeyError
      | Some emb1 \<Rightarrow>
          (case map_of file_embeddings file2 of
             None \<Rightarrow> Inl KeyError
           | Some emb2 \<Rightarrow>
               (case (emb1, emb2) of
                  (Hash h1, Hash h2) \<Rightarrow>
                    Inr (if h1 = h2 then duplicates @ [(file1, file2)] else duplicates)
                | (Vector v1, Vector v2) \<Rightarrow>
                    Inr (if cosine v1 v2 \<ge> similarity_threshold
                         then duplicates @ [(file1, file2)] else duplicates)
                | _ \<Rightarrow> Inr duplicates)))"

fun inner_loop ::
  "(real list \<Rightarrow> real list \<Rightarrow> real) \<Rightarrow> real \<Rightarrow> (path \<times> signature) list \<Rightarrow> path list \<Rightarrow>
   nat \<Rightarrow> nat list \<Rightarrow> (path \<times> path) list \<Rightarrow> py_error + (path \<times> path) list" where
  "inner_loop cosine thr fe file_list i [] duplicates = Inr duplicates"
| "inner_loop cosine thr fe file_list i (j # js) duplicates =
     (case compare_pair cosine thr fe file_list i j duplicates of
        Inl e \<Rightarrow> Inl e
      | Inr duplicates' \<Rightarrow> inner_loop cosine thr fe file_list i js duplicates')"

fun outer_loop ::
  "(real list \<Rightarrow> real list \<Rightarrow> real) \<Rightarrow> real \<Rightarrow> (path \<times> signature) list \<Rightarrow> path list \<Rightarrow>
   nat list \<Rightarrow> (path \<times> path) list \<Rightarrow> py_error + (path \<times> path) list" where
  "outer_loop cosine thr fe file_list [] duplicates = Inr duplicates"
| "outer_loop cosine thr fe file_list (i # idxs) duplicates =
     (case inner_loop cosine thr fe file_list i [i + 1 ..< length file_list] duplicates of
        Inl e \<Rightarrow> Inl e
      | Inr duplicates' \<Rightarrow> outer_loop cosine thr fe file_list idxs duplicates')"

definition compare_all ::
  "(real list \<Rightarrow> real list \<Rightarrow> real) \<Rightarrow> real \<Rightarrow> (path \<times> signature) list \<Rightarrow>
   py_error + (path \<times> path) list" where
  "compare_all cosine thr file_embeddings =
     (let file_list = map fst file_embeddings in
      outer_loop cosine thr file_embeddings file_list [0 ..< length file_list] [])"

definition similar_duplicates ::
  "(path \<Rightarrow> py_error + signature option) \<Rightarrow> (real list \<Rightarrow> real list \<Rightarrow> real) \<Rightarrow>
   path list \<Rightarrow> real \<Rightarrow> py_error + (path \<times> path) list" where
  "similar_duplicates sig_of cosine file_paths similarity_threshold =
     (case embeddings_loop sig_of file_paths [] of
        Inl e \<Rightarrow> Inl e
      | Inr file_embeddings \<Rightarrow> compare_all cosine similarity_threshold file_embeddings)"

text \<open>
  For comparison, when a pair of signatures counts as a duplicate pair in the words of
  the specification: two hashes when they are equal, two vectors when their cosine
  similarity reaches the threshold, a hash and a vector never. The pair emitted for two
  positions of the dict, if any.
\<close>

fun spec_emitted :: "(real list \<Rightarrow> real list \<Rightarrow> real) \<Rightarrow> real \<Rightarrow> signature \<Rightarrow> signature \<Rightarrow> bool" where
  "spec_emitted cosine thr (Hash h1) (Hash h2) = (h1 = h2)"
| "spec_emitted cosine thr (Vector v1) (Vector v2) = (thr \<le> cosine v1 v2)"
| "spec_emitted cosine thr (Hash h1) (Vector v2) = False"
| "spec_emitted cosine thr (Vector v1) (Hash h2) = False"

definition emitted_at ::
  "(real list \<Rightarrow> real list \<Rightarrow> real) \<Rightarrow> real \<Rightarrow> (path \<times> signature) list \<Rightarrow> nat \<Rightarrow> nat \<Rightarrow>
   (path \<times> path) list" where
  "emitted_at cosine thr fe i j =
     (if spec_emitted cosine thr (snd (fe ! i)) (snd (fe ! j))
      then [(fst (fe ! i), fst (fe ! j))] else [])"

text \<open>The signature of a path, if it has one: \<open>None\<close> both when the method returns
  \<open>None\<close> and when it raises.\<close>

definition sig_some :: "(path \<Rightarrow> py_error + signature option) \<Rightarrow> path \<Rightarrow> signature option" where
  "sig_some sig_of p = (case sig_of p of Inl e \<Rightarrow> None | Inr r \<Rightarrow> r)"

text \<open>
  For the concrete instances: signatures for five files (two equal hashes, two equal
  vectors, one file without signature), a similarity that is 1 on equal vectors and 0
  otherwise, and a name-based MIME guess that knows \<open>.txt\<close> only.
\<close>

definition demo_sig_of :: "path \<Rightarrow> py_error + signature option" where
  "demo_sig_of p =
     (if p = ''/d/a.bin'' then Inr (Some (Hash ''9f86''))
      else if p = ''/d/b.txt'' then Inr (Some (Vector [1, 0]))
      else if p = ''/d/c.bin'' then Inr (Some (Hash ''9f86''))
      else if p = ''/d/d.txt'' then Inr (Some (Vector [1, 0]))
      else Inr None)"

definition demo_cosine :: "real list \<Rightarrow> real list \<Rightarrow> real" where
  "demo_cosine u v = (if u = v then 1 else 0)"

definition demo_guess_type :: "string \<Rightarrow> string option" where
  "demo_guess_type p =
     (if snd (splitext p) = ''.txt'' then Some ''text/plain'' else None)"

section \<open>Properties of the audit log\<close>

subsection \<open>Metadata snapshots\<close>

lemma snapshots_log_same:
  "snapshots (log_file_metadata lg fp fh ft fsz lm ca) fp = [(fh, ft, fsz, lm, ca)]"
  by (simp add: snapshots_def log_file_metadata_def)

lemma filter_other_path:
  "fp' \<noteq> fp \<Longrightarrow>
   [r \<leftarrow> [r \<leftarrow> rows. col_file_path r \<noteq> fp]. col_file_path r = fp'] =
   [r \<leftarrow> rows. col_file_path r = fp']"
  by (induction rows) auto

lemma snapshots_log_other:
  "fp' \<noteq> fp \<Longrightarrow> snapshots (log_file_metadata lg fp fh ft fsz lm ca) fp' = snapshots lg fp'"
proof -
  assume ne: "fp' \<noteq> fp"
  have "[r \<leftarrow> file_metadata lg. col_file_path r \<noteq> fp \<and> col_file_path r = fp'] =
        [r \<leftarrow> file_metadata lg. col_file_path r = fp']"
    using ne by (intro filter_cong) auto
  then show ?thesis
    using ne by (simp add: snapshots_def log_file_metadata_def)
qed

lemma log_file_metadata_unique:
  "distinct (map col_file_path (file_metadata lg)) \<Longrightarrow>
   distinct (map col_file_path (file_metadata (log_file_metadata lg fp fh ft fsz lm ca)))"
  by (auto simp: log_file_metadata_def distinct_map_filter)


subsection \<open>The report\<close>

lemma length_filter_disj:
  "(\<And>x. x \<in> set xs \<Longrightarrow> \<not> (P x \<and> Q x)) \<Longrightarrow>
   length (filter P xs) + length (filter Q xs) = length (filter (\<lambda>x. P x \<or> Q x) xs)"
  by (induction xs) auto

lemma sum_group_counts:
  "distinct ks \<Longrightarrow>
   (\<Sum>k\<leftarrow>ks. if Q k then int (length [r \<leftarrow> rows. f r = k]) else 0) =
   int (length [r \<leftarrow> rows. f r \<in> set ks \<and> Q (f r)])"
proof (induction ks)
  case Nil
  then show ?case by simp
next
  case (Cons k ks)
  have disj: "\<And>x. x \<in> set rows \<Longrightarrow> \<not> ((f x = k \<and> Q k) \<and> (f x \<in> set ks \<and> Q (f x)))"
    using Cons.prems by auto
  have "int (length [r \<leftarrow> rows. f r \<in> set (k # ks) \<and> Q (f r)]) =
        int (length [r \<leftarrow> rows. (f r = k \<and> Q k) \<or> (f r \<in> set ks \<and> Q (f r))])"
    by (rule arg_cong[where f="\<lambda>l. int (length l)"], rule filter_cong) auto
  also have "\<dots> = int (length [r \<leftarrow> rows. f r = k \<and> Q k]) + int (length [r \<leftarrow> rows. f r \<in> set ks \<and> Q (f r)])"
    using length_filter_disj[of rows "\<lambda>x. f x = k \<and> Q k" "\<lambda>x. f x \<in> set ks \<and> Q (f x)"] disj
    by simp
  also have "int (length [r \<leftarrow> rows. f r = k \<and> Q k]) = (if Q k then int (length [r \<leftarrow> rows. f r = k]) else 0)"
    by simp
  finally show ?case using Cons by simp
qed

lemma success_of_init: "success_of [(''success'', 0), (''failure'', 0)] = 0"
  by (simp add: success_of_def)

lemma success_of_update:
  "success_of (AList.update s c inner) = (if s = ''success'' then c else success_of inner)"
  by (simp add: success_of_def update_conv')

lemma success_total_update:
  "distinct (map fst d) \<Longrightarrow>
   success_total (AList.update t v d) =
   success_total d - (case map_of d t of None \<Rightarrow> 0 | Some old \<Rightarrow> success_of old) + success_of v"
proof (induction d)
  case Nil
  then show ?case by (simp add: success_total_def)
next
  case (Cons p d)
  obtain t' inner where p: "p = (t', inner)" by (cases p)
  show ?case
  proof (cases "t' = t")
    case True
    then show ?thesis using p by (simp add: success_total_def)
  next
    case False
    then show ?thesis using p Cons by (simp add: success_total_def)
  qed
qed

lemma sum_success_total:
  "wf_by_type d \<Longrightarrow> sum_success d acc = Inr (acc + success_total d)"
proof (induction d arbitrary: acc)
  case Nil
  then show ?case by (simp add: success_total_def)
next
  case (Cons p d)
  obtain t inner where p: "p = (t, inner)" by (cases p)
  from Cons.prems p obtain c where c: "map_of inner ''success'' = Some c"
    by (auto simp: wf_by_type_def)
  have wf: "wf_by_type d" using Cons.prems by (auto simp: wf_by_type_def)
  have "success_total (p # d) = c + success_total d"
    using p c by (simp add: success_total_def success_of_def)
  then show ?case using p c Cons.IH[OF wf] by simp
qed

lemma set_update_sub: "set (AList.update k v al) \<subseteq> insert (k, v) (set al)"
  by (induction al) auto

lemma wf_by_type_update:
  "wf_by_type d \<Longrightarrow> map_of v ''success'' \<noteq> None \<Longrightarrow> wf_by_type (AList.update t v d)"
  unfolding wf_by_type_def
  using set_update_sub[of t v d] by (auto simp: distinct_update)

lemma by_type_loop_total:
  "wf_by_type d \<Longrightarrow> distinct (map fst rs) \<Longrightarrow> fresh_success rs d \<Longrightarrow>
   \<exists>d'. by_type_loop rs d = Inr d' \<and> wf_by_type d' \<and>
        success_total d' =
          success_total d + (\<Sum>r\<leftarrow>rs. if snd (fst r) = ''success'' then snd r else 0)"
proof (induction rs arbitrary: d)
  case Nil
  then show ?case by simp
next
  case (Cons r rs)
  obtain t s c where r: "r = ((t, s), c)" by (cases r) auto
  define d1 where "d1 = (if map_of d t = None
                then AList.update t [(''success'', 0), (''failure'', 0)] d else d)"
  have wf1: "wf_by_type d1"
    using Cons.prems(1) by (simp add: d1_def wf_by_type_update)
  have tot1: "success_total d1 = success_total d"
    using Cons.prems(1)
    by (auto simp: d1_def success_total_update wf_by_type_def success_of_init)
  obtain inner where inner: "map_of d1 t = Some inner"
    by (cases "map_of d t") (auto simp: d1_def update_conv')
  have inner_succ: "map_of inner ''success'' \<noteq> None"
    using wf1 inner by (auto simp: wf_by_type_def dest!: map_of_SomeD)
  have inner0: "s = ''success'' \<Longrightarrow> success_of inner = 0"
  proof -
    assume s: "s = ''success''"
    show ?thesis
    proof (cases "map_of d t")
      case None
      then have "inner = [(''success'', 0), (''failure'', 0)]"
        using inner by (simp add: d1_def update_conv')
      then show ?thesis by (simp add: success_of_init)
    next
      case (Some old)
      then have "inner = old" using inner by (simp add: d1_def)
      then show ?thesis using Cons.prems(3) Some s r by (auto simp: fresh_success_def)
    qed
  qed
  define d2 where "d2 = AList.update t (AList.update s c inner) d1"
  have wf2: "wf_by_type d2"
    unfolding d2_def using wf1 inner_succ
    by (intro wf_by_type_update) (auto simp: update_conv')
  have tot2: "success_total d2 = success_total d + (if s = ''success'' then c else 0)"
    using wf1 inner inner0 tot1
    by (auto simp: d2_def success_total_update wf_by_type_def success_of_update)
  have dist: "distinct (map fst rs)" using Cons.prems(2) by simp
  have fresh2: "fresh_success rs d2"
    unfolding fresh_success_def
  proof (intro allI impI)
    fix t' c' inner'
    assume mem: "((t', ''success''), c') \<in> set rs" and look: "map_of d2 t' = Some inner'"
    show "success_of inner' = 0"
    proof (cases "t' = t")
      case True
      then have in': "inner' = AList.update s c inner" using look by (simp add: d2_def update_conv')
      have "s \<noteq> ''success''"
        using Cons.prems(2) mem True r by (auto simp: image_iff)
      moreover have "success_of inner = 0"
      proof (cases "map_of d t")
        case None
        then have "inner = [(''success'', 0), (''failure'', 0)]"
        using inner by (simp add: d1_def update_conv')
      then show ?thesis by (simp add: success_of_init)
      next
        case (Some old)
        then have "inner = old" using inner by (simp add: d1_def)
        then show ?thesis using Cons.prems(3) Some mem True by (auto simp: fresh_success_def)
      qed
      ultimately show ?thesis using in' by (simp add: success_of_update)
    next
      case False
      then have "map_of d t' = Some inner'"
        using look by (auto simp: d2_def d1_def update_conv' split: if_splits)
      then show ?thesis using Cons.prems(3) mem by (auto simp: fresh_success_def)
    qed
  qed
  from Cons.IH[OF wf2 dist fresh2] obtain d' where
    d': "by_type_loop rs d2 = Inr d'" "wf_by_type d'"
    "success_total d' = success_total d2 + (\<Sum>r\<leftarrow>rs. if snd (fst r) = ''success'' then snd r else 0)"
    by blast
  have "by_type_loop (r # rs) d = by_type_loop rs d2"
    using inner by (simp add: r d2_def d1_def[symmetric] Let_def)
  then show ?case using d' tot2 r by simp
qed

lemma query_results_distinct: "distinct (map fst (query_results lg sd ed))"
  by (simp add: query_results_def Let_def comp_def)

lemma sum_group_counts_all:
  "(\<Sum>k\<leftarrow>remdups (map f rows). if Q k then int (length [r \<leftarrow> rows. f r = k]) else 0) =
   int (length [r \<leftarrow> rows. Q (f r)])"
proof -
  have "[r \<leftarrow> rows. f r \<in> set (remdups (map f rows)) \<and> Q (f r)] = [r \<leftarrow> rows. Q (f r)]"
    by (rule filter_cong) auto
  then show ?thesis
    using sum_group_counts[where ks="remdups (map f rows)" and Q=Q and rows=rows and f=f]
    by simp
qed

lemma query_results_total:
  "sum_list (map snd (query_results lg sd ed)) = int (length (selected_rows lg sd ed))"
  using sum_group_counts_all[where Q="\<lambda>k. True" and rows="selected_rows lg sd ed" and f=group_key]
  by (simp add: query_results_def Let_def comp_def)

lemma query_results_success:
  "(\<Sum>r\<leftarrow>query_results lg sd ed. if snd (fst r) = ''success'' then snd r else 0) =
   int (count_successes lg sd ed)"
proof -
  have snd_key: "\<And>r. snd (group_key r) = status r"
    by (simp add: group_key_def)
  show ?thesis
    using sum_group_counts_all[where Q="\<lambda>k. snd k = ''success''"
        and rows="selected_rows lg sd ed" and f=group_key]
    by (simp add: query_results_def Let_def comp_def count_successes_def snd_key cong: if_cong)
qed

text \<open>
  C9 (as amended). For every log and every optional time window \<open>generate_report\<close>
  returns a report and raises nothing, no division fault either. Its total is the number
  of operations in the window, and its success rate is the percentage of successes:
  100 times the number of successes divided by the total, and 0 when the total is 0.
\<close>

theorem generate_report_success_rate:
  "\<exists>r. generate_report lg start_date end_date = Inr r \<and>
       total_operations r = int (length (selected_rows lg start_date end_date)) \<and>
       success_rate r = spec_success_rate lg start_date end_date * 100"
proof -
  let ?rs = "query_results lg start_date end_date"
  have wf0: "wf_by_type []" by (simp add: wf_by_type_def)
  have fresh0: "fresh_success ?rs []" by (simp add: fresh_success_def)
  from by_type_loop_total[OF wf0 query_results_distinct fresh0]
  obtain d where d: "by_type_loop ?rs [] = Inr d" "wf_by_type d"
    "success_total d = int (count_successes lg start_date end_date)"
    by (auto simp: query_results_success success_total_def)
  have ss: "sum_success d 0 = Inr (int (count_successes lg start_date end_date))"
    using sum_success_total[OF d(2), of 0] d(3) by simp
  show ?thesis
  proof (cases "length (selected_rows lg start_date end_date) = 0")
    case True
    then show ?thesis
      using d(1) ss
      by (simp add: generate_report_def Let_def query_results_total spec_success_rate_def)
  next
    case False
    then show ?thesis
      using d(1) ss
      by (simp add: generate_report_def Let_def query_results_total spec_success_rate_def
          py_truediv_def)
  qed
qed

text \<open>
  C9 as stated (the rate is successes divided by the total) fails: with one success and
  one failure logged the report gives 50, and successes divided by the total is 1/2.
\<close>

theorem generate_report_ratio_counterexample:
  "generate_report
     (log_operation
        (log_operation (init_db 0) ''duplicate_removal'' ''a'' None ''success'' [])
        ''duplicate_removal'' ''b'' None ''failure'' [])
     None None =
   Inr \<lparr>total_operations = 2,
        operations_by_type = [(''duplicate_removal'', [(''success'', 1), (''failure'', 1)])],
        success_rate = 50\<rparr> \<and>
   spec_success_rate
     (log_operation
        (log_operation (init_db 0) ''duplicate_removal'' ''a'' None ''success'' [])
        ''duplicate_removal'' ''b'' None ''failure'' [])
     None None = 1 / 2"
  by (simp add: generate_report_def query_results_def selected_rows_def in_window_def
      group_key_def log_operation_def init_db_def py_truediv_def spec_success_rate_def
      count_successes_def Let_def)


section \<open>Properties of the exact-duplicate detector\<close>

subsection \<open>Grouping by hash\<close>

lemma group_of_append:
  "group_of (hash_map_append hm k p) k' = (if k' = k then group_of hm k @ [p] else group_of hm k')"
  by (simp add: group_of_def hash_map_append_def update_conv')

lemma no_empty_group_append: "no_empty_group hm \<Longrightarrow> no_empty_group (hash_map_append hm k p)"
  by (simp add: no_empty_group_def hash_map_append_def update_conv' distinct_update)

lemma loop_group_of:
  "group_of (fst (find_duplicates_loop hashlib fs ht files (hm, lg))) k =
   group_of hm k @ [p \<leftarrow> files. calculate_file_hash hashlib fs p ht = Inr k]"
proof (induction files arbitrary: hm lg)
  case Nil
  then show ?case by simp
next
  case (Cons f files)
  show ?case
  proof (cases "calculate_file_hash hashlib fs f ht")
    case (Inl e)
    then show ?thesis using Cons.IH by simp
  next
    case (Inr fh)
    then show ?thesis
      using Cons.IH by (cases "get_file_metadata fs f") (auto simp: group_of_append)
  qed
qed

lemma loop_no_empty_group:
  "no_empty_group hm \<Longrightarrow>
   no_empty_group (fst (find_duplicates_loop hashlib fs ht files (hm, lg)))"
proof (induction files arbitrary: hm lg)
  case Nil
  then show ?case by simp
next
  case (Cons f files)
  show ?case
  proof (cases "calculate_file_hash hashlib fs f ht")
    case (Inl e)
    then show ?thesis using Cons by simp
  next
    case (Inr fh)
    then show ?thesis
      using Cons by (cases "get_file_metadata fs f") (auto simp: no_empty_group_append)
  qed
qed

lemma map_of_filter_groups:
  "distinct (map fst hm) \<Longrightarrow>
   map_of [(k, v) \<leftarrow> hm. P v] k' =
   (case map_of hm k' of None \<Rightarrow> None | Some v \<Rightarrow> if P v then Some v else None)"
proof (induction hm)
  case Nil
  then show ?case by simp
next
  case (Cons kv hm)
  obtain k v where kv: "kv = (k, v)" by (cases kv)
  have notin: "k' = k \<Longrightarrow> map_of hm k' = None"
    using Cons.prems kv by (auto simp: map_of_eq_None_iff)
  show ?case
    using Cons kv notin by (auto split: option.splits)
qed

lemma find_duplicates_map_of:
  "map_of (fst (find_duplicates hashlib fs lg files ht)) k =
     (if length [p \<leftarrow> files. calculate_file_hash hashlib fs p ht = Inr k] > 1
      then Some [p \<leftarrow> files. calculate_file_hash hashlib fs p ht = Inr k] else None)"
proof -
  obtain hm lg' where loop: "find_duplicates_loop hashlib fs ht files ([], lg) = (hm, lg')"
    by (cases "find_duplicates_loop hashlib fs ht files ([], lg)")
  have ne: "no_empty_group hm"
    using loop_no_empty_group[of "[]" hashlib fs ht files lg] loop
    by (simp add: no_empty_group_def)
  have grp: "group_of hm k = [p \<leftarrow> files. calculate_file_hash hashlib fs p ht = Inr k]"
    using loop_group_of[of hashlib fs ht files "[]" lg k] loop by (simp add: group_of_def)
  have "map_of [(k, v) \<leftarrow> hm. length v > 1] k =
        (case map_of hm k of None \<Rightarrow> None | Some v \<Rightarrow> if length v > 1 then Some v else None)"
    using ne by (intro map_of_filter_groups) (simp add: no_empty_group_def)
  then show ?thesis
    using grp loop by (auto simp: find_duplicates_def group_of_def split: option.splits)
qed

lemma find_duplicates_distinct:
  "distinct (map fst (fst (find_duplicates hashlib fs lg files ht)))"
proof -
  obtain hm lg' where loop: "find_duplicates_loop hashlib fs ht files ([], lg) = (hm, lg')"
    by (cases "find_duplicates_loop hashlib fs ht files ([], lg)")
  have "no_empty_group hm"
    using loop_no_empty_group[of "[]" hashlib fs ht files lg] loop
    by (simp add: no_empty_group_def)
  then show ?thesis
    using loop by (simp add: find_duplicates_def no_empty_group_def distinct_map_filter)
qed

text \<open>
  C1. \<open>find_duplicates\<close> returns a mapping from content hash to the paths sharing that
  hash: it has one entry per hash, the entry of a hash lists, in the order of the
  listing, exactly the paths whose hash could be computed and equals it, and a hash is
  present only when at least two paths share it. In particular, for three readable
  files holding \<open>hello\<close>, \<open>hello\<close> and \<open>world\<close> (whose digests differ) the result is
  the single group of the two \<open>hello\<close> files under the digest of \<open>hello\<close>, and the
  \<open>world\<close> file is in no group.
\<close>

theorem find_duplicates_groups:
  "distinct (map fst (fst (find_duplicates hashlib fs lg files ht))) \<and>
   map_of (fst (find_duplicates hashlib fs lg files ht)) k =
     (if length [p \<leftarrow> files. calculate_file_hash hashlib fs p ht = Inr k] > 1
      then Some [p \<leftarrow> files. calculate_file_hash hashlib fs p ht = Inr k] else None) \<and>
   (fs a = Some fa \<and> fs b = Some fb \<and> fs c = Some fc \<and>
    content fa = ''hello'' \<and> content fb = ''hello'' \<and> content fc = ''world'' \<and>
    readable fa \<and> readable fb \<and> readable fc \<and>
    hashlib ht = Some H \<and> H ''hello'' \<noteq> H ''world'' \<longrightarrow>
    fst (find_duplicates hashlib fs lg [a, b, c] ht) = [(H ''hello'', [a, b])])"
proof (intro conjI)
  show "distinct (map fst (fst (find_duplicates hashlib fs lg files ht)))"
    by (rule find_duplicates_distinct)
  show "map_of (fst (find_duplicates hashlib fs lg files ht)) k =
     (if length [p \<leftarrow> files. calculate_file_hash hashlib fs p ht = Inr k] > 1
      then Some [p \<leftarrow> files. calculate_file_hash hashlib fs p ht = Inr k] else None)"
    by (rule find_duplicates_map_of)
  show "fs a = Some fa \<and> fs b = Some fb \<and> fs c = Some fc \<and>
    content fa = ''hello'' \<and> content fb = ''hello'' \<and> content fc = ''world'' \<and>
    readable fa \<and> readable fb \<and> readable fc \<and>
    hashlib ht = Some H \<and> H ''hello'' \<noteq> H ''world'' \<longrightarrow>
    fst (find_duplicates hashlib fs lg [a, b, c] ht) = [(H ''hello'', [a, b])]"
    by (simp add: find_duplicates_def calculate_file_hash_def read_bytes_def
        get_file_metadata_def get_file_type_def hash_map_append_def split: prod.splits)
qed

theorem find_duplicates_groups_witness:
  "fst (find_duplicates (\<lambda>t. if t = ''md5'' then Some rev else None)
     [''/d/a'' \<mapsto> \<lparr>content = ''hello'', readable = True, deletable = True, mtime = 1,
                   ctime = 1, mime = ''text/plain''\<rparr>,
      ''/d/b'' \<mapsto> \<lparr>content = ''hello'', readable = True, deletable = True, mtime = 2,
                   ctime = 2, mime = ''text/plain''\<rparr>,
      ''/d/c'' \<mapsto> \<lparr>content = ''world'', readable = True, deletable = True, mtime = 3,
                   ctime = 3, mime = ''text/plain''\<rparr>]
     (init_db 0) [''/d/a'', ''/d/b'', ''/d/c''] ''md5'') =
   [(''olleh'', [''/d/a'', ''/d/b''])]"
  using find_duplicates_groups[where hashlib="\<lambda>t. if t = ''md5'' then Some rev else None"
      and ht="''md5''" and H=rev and a="''/d/a''" and b="''/d/b''" and c="''/d/c''"
      and lg="init_db 0"
      and fa="\<lparr>content = ''hello'', readable = True, deletable = True, mtime = 1,
                   ctime = 1, mime = ''text/plain''\<rparr>"
      and fb="\<lparr>content = ''hello'', readable = True, deletable = True, mtime = 2,
                   ctime = 2, mime = ''text/plain''\<rparr>"
      and fc="\<lparr>content = ''world'', readable = True, deletable = True, mtime = 3,
                   ctime = 3, mime = ''text/plain''\<rparr>"
      and fs="[''/d/a'' \<mapsto> \<lparr>content = ''hello'', readable = True, deletable = True, mtime = 1,
                   ctime = 1, mime = ''text/plain''\<rparr>,
      ''/d/b'' \<mapsto> \<lparr>content = ''hello'', readable = True, deletable = True, mtime = 2,
                   ctime = 2, mime = ''text/plain''\<rparr>,
      ''/d/c'' \<mapsto> \<lparr>content = ''world'', readable = True, deletable = True, mtime = 3,
                   ctime = 3, mime = ''text/plain''\<rparr>]"]
  by simp

subsection \<open>The retained member\<close>

lemma find_filter_hd: "filter P xs = y # ys \<Longrightarrow> find P xs = Some y"
  by (induction xs) (auto split: if_splits)

lemma hd_filter_self: "xs \<noteq> [] \<Longrightarrow> P (hd xs) \<Longrightarrow> hd (filter P xs) = hd xs"
  by (cases xs) auto

lemma last_filter_self:
  assumes "xs \<noteq> []" "P (last xs)"
  shows "last (filter P xs) = last xs"
proof -
  have "hd (filter P (rev xs)) = hd (rev xs)"
    using assms by (intro hd_filter_self) (simp_all add: hd_rev)
  then show ?thesis
    by (simp add: rev_filter[symmetric] hd_rev)
qed

lemma sorted_hd_least:
  "sorted (map f s) \<Longrightarrow> s \<noteq> [] \<Longrightarrow> y \<in> set s \<Longrightarrow> f (hd s) \<le> f y"
  by (cases s) auto

lemma sorted_last_greatest:
  "sorted (map f s) \<Longrightarrow> s \<noteq> [] \<Longrightarrow> y \<in> set s \<Longrightarrow> f y \<le> f (last s)"
  by (induction s) (auto split: if_splits)

lemma hd_sort_key_first_least:
  fixes f :: "'a \<Rightarrow> 'k::linorder"
  assumes "xs \<noteq> []"
  shows "first_extreme f False xs = Some (hd (sort_key f xs))"
proof -
  let ?s = "sort_key f xs"
  let ?m = "hd ?s"
  have ne: "?s \<noteq> []" using assms by (metis length_sort length_0_conv)
  have least: "\<And>y. y \<in> set xs \<Longrightarrow> f ?m \<le> f y"
    using sorted_hd_least[of f ?s] ne by simp
  have mem: "?m \<in> set xs" using ne hd_in_set[of ?s] by simp
  have "filter (\<lambda>y. f y = f ?m) xs = filter (\<lambda>y. f y = f ?m) ?s"
    by (simp add: sort_key_stable)
  moreover have "filter (\<lambda>y. f y = f ?m) ?s \<noteq> []"
    using ne by (cases ?s) auto
  moreover have "hd (filter (\<lambda>y. f y = f ?m) ?s) = ?m"
    using ne by (intro hd_filter_self) auto
  ultimately obtain ys where flt: "filter (\<lambda>y. f y = f ?m) xs = ?m # ys"
    by (metis list.collapse)
  have "filter (\<lambda>x. list_all (\<lambda>y. f x \<le> f y) xs) xs = filter (\<lambda>y. f y = f ?m) xs"
  proof (rule filter_cong[OF refl])
    fix x assume x: "x \<in> set xs"
    show "list_all (\<lambda>y. f x \<le> f y) xs = (f x = f ?m)"
      using least[OF x] mem least by (auto simp: list_all_iff intro: antisym)
  qed
  then show ?thesis
    using flt by (simp add: first_extreme_def find_filter_hd)
qed

lemma last_sort_key_rev_first_greatest:
  fixes f :: "'a \<Rightarrow> 'k::linorder"
  assumes "xs \<noteq> []"
  shows "first_extreme f True xs = Some (hd (rev (sort_key f (rev xs))))"
proof -
  let ?s = "sort_key f (rev xs)"
  let ?m = "last ?s"
  have ne: "?s \<noteq> []" using assms by (metis length_sort length_0_conv rev_is_Nil_conv)
  have greatest: "\<And>y. y \<in> set xs \<Longrightarrow> f y \<le> f ?m"
    using sorted_last_greatest[of f ?s] ne by simp
  have mem: "?m \<in> set xs" using ne last_in_set[of ?s] by simp
  have "filter (\<lambda>y. f y = f ?m) ?s = rev (filter (\<lambda>y. f y = f ?m) xs)"
    by (simp add: sort_key_stable rev_filter)
  moreover have "filter (\<lambda>y. f y = f ?m) ?s \<noteq> []"
    using ne mem by (auto simp: filter_empty_conv)
  moreover have "last (filter (\<lambda>y. f y = f ?m) ?s) = ?m"
    using ne by (intro last_filter_self) auto
  ultimately have "filter (\<lambda>y. f y = f ?m) xs \<noteq> []" "hd (filter (\<lambda>y. f y = f ?m) xs) = ?m"
    by (auto simp: last_rev)
  then obtain ys where flt: "filter (\<lambda>y. f y = f ?m) xs = ?m # ys"
    by (metis list.collapse)
  have "filter (\<lambda>x. list_all (\<lambda>y. f y \<le> f x) xs) xs = filter (\<lambda>y. f y = f ?m) xs"
  proof (rule filter_cong[OF refl])
    fix x assume x: "x \<in> set xs"
    show "list_all (\<lambda>y. f y \<le> f x) xs = (f x = f ?m)"
      using greatest[OF x] mem greatest by (auto simp: list_all_iff intro: antisym)
  qed
  then show ?thesis
    using flt by (simp add: first_extreme_def find_filter_hd hd_rev)
qed

lemma find_map_conv: "find P (map g xs) = map_option g (find (\<lambda>x. P (g x)) xs)"
  by (induction xs) auto

lemma first_extreme_decorated:
  "first_extreme snd r (map (\<lambda>p. (p, k p)) ps) = map_option (\<lambda>p. (p, k p)) (first_extreme k r ps)"
  by (simp add: first_extreme_def find_map_conv list_all_iff)

lemma decorate_total:
  "\<forall>p\<in>set ps. key p = Inr (k p) \<Longrightarrow> decorate key ps = Inr (map (\<lambda>p. (p, k p)) ps)"
  by (induction ps) auto

lemma sorted_py_head:
  fixes k :: "'a \<Rightarrow> 'k::linorder"
  assumes "ps \<noteq> []" and "\<forall>p\<in>set ps. key p = Inr (k p)"
  shows "\<exists>x rest. sorted_py ps key r = Inr (x # rest) \<and> first_extreme k r ps = Some x"
proof -
  let ?ds = "map (\<lambda>p. (p, k p)) ps"
  define s where "s = (if r then rev (sort_key snd (rev ?ds)) else sort_key snd ?ds)"
  have dne: "?ds \<noteq> []" using assms(1) by simp
  have "length s = length ?ds" by (simp add: s_def)
  then have sne: "s \<noteq> []" using dne by (metis length_0_conv)
  have hd_s: "first_extreme snd r ?ds = Some (hd s)"
    using hd_sort_key_first_least[OF dne, of snd] last_sort_key_rev_first_greatest[OF dne, of snd]
    by (cases r) (simp_all add: s_def)
  then have "map_option (\<lambda>p. (p, k p)) (first_extreme k r ps) = Some (hd s)"
    by (simp add: first_extreme_decorated)
  then obtain x where x: "first_extreme k r ps = Some x" "(x, k x) = hd s"
    by (cases "first_extreme k r ps") auto
  have hx: "fst (hd s) = x" using x(2) by (metis fst_conv)
  have sp: "sorted_py ps key r = Inr (map fst s)"
    using decorate_total[OF assms(2)] by (simp add: sorted_py_def s_def)
  have "map fst s = x # map fst (tl s)"
    using sne hx by (cases s) auto
  then have "sorted_py ps key r = Inr (x # map fst (tl s)) \<and> first_extreme k r ps = Some x"
    using sp x(1) by simp
  then show ?thesis by blast
qed

lemma getmtime_exists: "fs p \<noteq> None \<Longrightarrow> getmtime fs p = Inr (mtime_of fs p)"
  by (auto simp: getmtime_def mtime_of_def)

lemma getsize_exists: "fs p \<noteq> None \<Longrightarrow> getsize fs p = Inr (size_of fs p)"
  by (auto simp: getsize_def size_of_def)

text \<open>
  C2. For each of the four strategies and every non-empty group of existing files, the
  member that \<open>remove_duplicates\<close> keeps (the head of the sorted list) is the first
  member, in the order of the group, whose key is extreme: the greatest modification
  time for \<open>newest\<close>, the least for \<open>oldest\<close>, the greatest size for \<open>largest\<close>, the
  least for \<open>smallest\<close>. In particular, with \<open>newest\<close> and two duplicates of
  modification times \<open>T1 < T2\<close>, in either order, the file with \<open>T2\<close> is retained and
  the other one, whose deletion goes through, is the removed list.
\<close>

theorem sorted_files_first_extreme:
  "(file_paths \<noteq> [] \<and> (\<forall>p\<in>set file_paths. fs p \<noteq> None) \<longrightarrow>
      (\<exists>keep_file rest. sort_files fs ''newest'' file_paths = Inr (keep_file # rest) \<and>
         first_extreme (mtime_of fs) True file_paths = Some keep_file) \<and>
      (\<exists>keep_file rest. sort_files fs ''oldest'' file_paths = Inr (keep_file # rest) \<and>
         first_extreme (mtime_of fs) False file_paths = Some keep_file) \<and>
      (\<exists>keep_file rest. sort_files fs ''largest'' file_paths = Inr (keep_file # rest) \<and>
         first_extreme (size_of fs) True file_paths = Some keep_file) \<and>
      (\<exists>keep_file rest. sort_files fs ''smallest'' file_paths = Inr (keep_file # rest) \<and>
         first_extreme (size_of fs) False file_paths = Some keep_file)) \<and>
   (fs a = Some fa \<and> fs b = Some fb \<and> mtime fa < mtime fb \<and> deletable fa \<longrightarrow>
      (case remove_duplicates [(h, [a, b])] ''newest'' fs lg of
         (res, fs', lg') \<Rightarrow> res = Inr [a] \<and> fs' b = Some fb \<and> fs' a = None) \<and>
      (case remove_duplicates [(h, [b, a])] ''newest'' fs lg of
         (res, fs', lg') \<Rightarrow> res = Inr [a] \<and> fs' b = Some fb \<and> fs' a = None))"
proof (intro conjI impI)
  assume h: "file_paths \<noteq> [] \<and> (\<forall>p\<in>set file_paths. fs p \<noteq> None)"
  then have ne: "file_paths \<noteq> []"
    and mt: "\<forall>p\<in>set file_paths. getmtime fs p = Inr (mtime_of fs p)"
    and sz: "\<forall>p\<in>set file_paths. getsize fs p = Inr (size_of fs p)"
    by (simp_all add: getmtime_exists getsize_exists)
  show "\<exists>keep_file rest. sort_files fs ''newest'' file_paths = Inr (keep_file # rest) \<and>
         first_extreme (mtime_of fs) True file_paths = Some keep_file"
    using sorted_py_head[OF ne mt, of True] by (simp add: sort_files_def)
  show "\<exists>keep_file rest. sort_files fs ''oldest'' file_paths = Inr (keep_file # rest) \<and>
         first_extreme (mtime_of fs) False file_paths = Some keep_file"
    using sorted_py_head[OF ne mt, of False] by (simp add: sort_files_def)
  show "\<exists>keep_file rest. sort_files fs ''largest'' file_paths = Inr (keep_file # rest) \<and>
         first_extreme (size_of fs) True file_paths = Some keep_file"
    using sorted_py_head[OF ne sz, of True] by (simp add: sort_files_def)
  show "\<exists>keep_file rest. sort_files fs ''smallest'' file_paths = Inr (keep_file # rest) \<and>
         first_extreme (size_of fs) False file_paths = Some keep_file"
    using sorted_py_head[OF ne sz, of False] by (simp add: sort_files_def)
next
  assume h: "fs a = Some fa \<and> fs b = Some fb \<and> mtime fa < mtime fb \<and> deletable fa"
  then have ab: "a \<noteq> b" by auto
  show "case remove_duplicates [(h, [a, b])] ''newest'' fs lg of
         (res, fs', lg') \<Rightarrow> res = Inr [a] \<and> fs' b = Some fb \<and> fs' a = None"
    using h ab
    by (simp add: remove_duplicates_def sort_files_def sorted_py_def getmtime_def os_remove_def)
  show "case remove_duplicates [(h, [b, a])] ''newest'' fs lg of
         (res, fs', lg') \<Rightarrow> res = Inr [a] \<and> fs' b = Some fb \<and> fs' a = None"
    using h ab
    by (simp add: remove_duplicates_def sort_files_def sorted_py_def getmtime_def os_remove_def)
qed

theorem sorted_files_first_extreme_witness:
  "first_extreme
     (mtime_of [''/d/a'' \<mapsto> plain_file ''hello'' 1 True, ''/d/b'' \<mapsto> plain_file ''hello'' 2 True])
     True [''/d/a'', ''/d/b''] \<noteq> None \<and>
   fst (remove_duplicates [(''5d41'', [''/d/a'', ''/d/b''])] ''newest''
     [''/d/a'' \<mapsto> plain_file ''hello'' 1 True, ''/d/b'' \<mapsto> plain_file ''hello'' 2 True]
     (init_db 0)) = Inr [''/d/a'']"
  using sorted_files_first_extreme[where file_paths="[''/d/a'', ''/d/b'']"
      and fs="[''/d/a'' \<mapsto> plain_file ''hello'' 1 True, ''/d/b'' \<mapsto> plain_file ''hello'' 2 True]"
      and a="''/d/a''" and b="''/d/b''" and fa="plain_file ''hello'' 1 True"
      and fb="plain_file ''hello'' 2 True" and h="''5d41''" and lg="init_db 0"]
  by (auto simp: plain_file_def split: prod.splits)


subsection \<open>Removing duplicates\<close>

lemma log_rows_log_operation:
  "log_rows (log_operation lg t p d st det) = log_rows lg @ [(t, p, st)]"
  by (simp add: log_rows_def log_operation_def)

lemma can_delete_upd: "can_delete (fs(p := None)) q = (q \<noteq> p \<and> can_delete fs q)"
  by (simp add: can_delete_def)

lemma os_remove_conv:
  "os_remove fs p = (if can_delete fs p then Inr (fs(p := None)) else Inl OSError)"
  by (auto simp: os_remove_def can_delete_def split: option.splits)

lemma remove_loop_exact:
  "distinct rest \<Longrightarrow>
   \<exists>lg'. remove_loop keep rest (removed, fs, lg) =
     (removed @ [p \<leftarrow> rest. can_delete fs p],
      (\<lambda>q. if q \<in> set rest \<and> can_delete fs q then None else fs q), lg') \<and>
     log_rows lg' = log_rows lg @ map (removal_row fs) rest"
proof (induction rest arbitrary: removed fs lg)
  case Nil
  then show ?case by simp
next
  case (Cons p rest)
  have dr: "distinct rest" and pn: "p \<notin> set rest" using Cons.prems by auto
  show ?case
  proof (cases "can_delete fs p")
    case True
    let ?fs1 = "fs(p := None)"
    let ?lg1 = "log_operation lg ''duplicate_removal'' p None ''success'' (''Kept file: '' @ keep)"
    from Cons.IH[OF dr, of "removed @ [p]" ?fs1 ?lg1] obtain lg' where
      lg': "remove_loop keep rest (removed @ [p], ?fs1, ?lg1) =
        ((removed @ [p]) @ [q \<leftarrow> rest. can_delete ?fs1 q],
         (\<lambda>q. if q \<in> set rest \<and> can_delete ?fs1 q then None else ?fs1 q), lg')"
      "log_rows lg' = log_rows ?lg1 @ map (removal_row ?fs1) rest"
      by blast
    have f1: "[q \<leftarrow> rest. can_delete ?fs1 q] = [q \<leftarrow> rest. can_delete fs q]"
      using pn by (intro filter_cong) (auto simp: can_delete_upd)
    have f2: "(\<lambda>q. if q \<in> set rest \<and> can_delete ?fs1 q then None else ?fs1 q) =
              (\<lambda>q. if q \<in> set (p # rest) \<and> can_delete fs q then None else fs q)"
      using True by (auto simp: fun_eq_iff can_delete_upd)
    have f3: "map (removal_row ?fs1) rest = map (removal_row fs) rest"
      using pn by (intro map_cong) (auto simp: removal_row_def can_delete_upd)
    have "remove_loop keep (p # rest) (removed, fs, lg) =
          remove_loop keep rest (removed @ [p], ?fs1, ?lg1)"
      using True by (simp add: os_remove_conv)
    then show ?thesis
      using lg' True f1 f2 f3 by (simp add: log_rows_log_operation removal_row_def)
  next
    case False
    let ?lg1 = "log_operation lg ''duplicate_removal'' p None ''failure'' (str_of_error OSError)"
    from Cons.IH[OF dr, of removed fs ?lg1] obtain lg' where
      lg': "remove_loop keep rest (removed, fs, ?lg1) =
        (removed @ [q \<leftarrow> rest. can_delete fs q],
         (\<lambda>q. if q \<in> set rest \<and> can_delete fs q then None else fs q), lg')"
      "log_rows lg' = log_rows ?lg1 @ map (removal_row fs) rest"
      by blast
    have f2: "(\<lambda>q. if q \<in> set rest \<and> can_delete fs q then None else fs q) =
              (\<lambda>q. if q \<in> set (p # rest) \<and> can_delete fs q then None else fs q)"
      using False by (auto simp: fun_eq_iff)
    have "remove_loop keep (p # rest) (removed, fs, lg) =
          remove_loop keep rest (removed, fs, ?lg1)"
      using False by (simp add: os_remove_conv)
    then show ?thesis
      using lg' False f2 by (simp add: log_rows_log_operation removal_row_def)
  qed
qed

lemma remove_loop_touch:
  "remove_loop keep rest (removed, fs, lg) = (removed', fs', lg') \<Longrightarrow>
   (\<forall>q. q \<notin> set rest \<longrightarrow> fs' q = fs q) \<and> set removed' \<subseteq> set removed \<union> set rest"
proof (induction rest arbitrary: removed fs lg)
  case Nil
  then show ?case by simp
next
  case (Cons p rest)
  show ?case
  proof (cases "can_delete fs p")
    case True
    then have "remove_loop keep rest (removed @ [p], fs(p := None),
        log_operation lg ''duplicate_removal'' p None ''success'' (''Kept file: '' @ keep)) =
        (removed', fs', lg')"
      using Cons.prems by (simp add: os_remove_conv)
    from Cons.IH[OF this] show ?thesis by auto
  next
    case False
    then have "remove_loop keep rest (removed, fs,
        log_operation lg ''duplicate_removal'' p None ''failure'' (str_of_error OSError)) =
        (removed', fs', lg')"
      using Cons.prems by (simp add: os_remove_conv)
    from Cons.IH[OF this] show ?thesis by auto
  qed
qed

lemma decorate_cong_on:
  "\<forall>p\<in>set ps. k1 p = k2 p \<Longrightarrow> decorate k1 ps = decorate k2 ps"
  by (induction ps) (auto split: sum.splits)

lemma sort_files_cong_on:
  assumes "\<forall>p\<in>set ps. fs1 p = fs2 p"
  shows "sort_files fs1 strat ps = sort_files fs2 strat ps"
proof -
  have "decorate (getmtime fs1) ps = decorate (getmtime fs2) ps"
    using assms by (intro decorate_cong_on) (simp add: getmtime_def)
  moreover have "decorate (getsize fs1) ps = decorate (getsize fs2) ps"
    using assms by (intro decorate_cong_on) (simp add: getsize_def)
  ultimately show ?thesis by (simp add: sort_files_def sorted_py_def)
qed

lemma decorate_fst: "decorate key ps = Inr ds \<Longrightarrow> map fst ds = ps"
  by (induction ps arbitrary: ds) (auto split: sum.splits)

lemma sorted_py_mset:
  fixes key :: "'a \<Rightarrow> py_error + 'k::linorder"
  assumes "sorted_py ps key r = Inr s"
  shows "mset s = mset ps"
proof -
  from assms obtain ds where ds: "decorate key ps = Inr ds"
    and s: "s = map fst (if r then rev (sort_key snd (rev ds)) else sort_key snd ds)"
    by (auto simp: sorted_py_def split: sum.splits)
  have "mset s = mset (map fst ds)" by (simp add: s)
  then show ?thesis using decorate_fst[OF ds] by simp
qed

lemma sort_files_mset: "sort_files fs strat ps = Inr s \<Longrightarrow> mset s = mset ps"
  by (auto simp: sort_files_def split: if_splits dest: sorted_py_mset)

lemma sort_files_total:
  assumes "valid_strategy strat" "ps \<noteq> []" "\<forall>p\<in>set ps. fs p \<noteq> None"
  shows "\<exists>k rest. sort_files fs strat ps = Inr (k # rest)"
proof -
  have mt: "\<forall>p\<in>set ps. getmtime fs p = Inr (mtime_of fs p)"
    and sz: "\<forall>p\<in>set ps. getsize fs p = Inr (size_of fs p)"
    using assms(3) by (simp_all add: getmtime_exists getsize_exists)
  have a: "\<exists>k rest. sorted_py ps (getmtime fs) r = Inr (k # rest)" for r
    using sorted_py_head[OF assms(2) mt, of r] by blast
  have b: "\<exists>k rest. sorted_py ps (getsize fs) r = Inr (k # rest)" for r
    using sorted_py_head[OF assms(2) sz, of r] by blast
  consider "strat = ''newest''" | "strat = ''oldest''" | "strat = ''largest''"
    | "strat = ''smallest''"
    using assms(1) by (auto simp: valid_strategy_def)
  then show ?thesis
  proof cases
    case 1
    then show ?thesis using a[of True] by (simp add: sort_files_def)
  next
    case 2
    then show ?thesis using a[of False] by (simp add: sort_files_def)
  next
    case 3
    then show ?thesis using b[of True] by (simp add: sort_files_def)
  next
    case 4
    then show ?thesis using b[of False] by (simp add: sort_files_def)
  qed
qed

lemma to_remove_subset: "set (to_remove fs strat ps) \<subseteq> set ps"
proof (cases "sort_files fs strat ps")
  case (Inl e)
  then show ?thesis by (simp add: to_remove_def)
next
  case (Inr s)
  have "set s = set ps" using sort_files_mset[OF Inr] by (rule mset_eq_setD)
  moreover have "set (tl s) \<subseteq> set s" by (cases s) auto
  ultimately show ?thesis using Inr by (simp add: to_remove_def)
qed

lemma attempted_Cons:
  "attempted fs strat ((h, ps) # gs) = to_remove fs strat ps @ attempted fs strat gs"
  by (simp add: attempted_def)

lemma attempted_subset: "set (attempted fs strat gs) \<subseteq> set (concat (map snd gs))"
proof (induction gs)
  case Nil
  then show ?case by (simp add: attempted_def)
next
  case (Cons g gs)
  obtain h ps where g: "g = (h, ps)" by (cases g)
  show ?case
    using Cons to_remove_subset[of fs strat ps] by (auto simp: g attempted_Cons)
qed

lemma attempted_cong_on:
  "\<forall>p\<in>set (concat (map snd gs)). fs1 p = fs2 p \<Longrightarrow>
   attempted fs1 strat gs = attempted fs2 strat gs"
proof (induction gs)
  case Nil
  then show ?case by (simp add: attempted_def)
next
  case (Cons g gs)
  obtain h ps where g: "g = (h, ps)" by (cases g)
  have "\<forall>p\<in>set ps. fs1 p = fs2 p" using Cons.prems by (simp add: g)
  then have "to_remove fs1 strat ps = to_remove fs2 strat ps"
    by (simp add: to_remove_def sort_files_cong_on[of ps fs1 fs2])
  moreover have "attempted fs1 strat gs = attempted fs2 strat gs"
    using Cons by simp
  ultimately show ?case by (simp add: g attempted_Cons)
qed

lemma sort_files_distinct_tail:
  assumes "sort_files fs strat ps = Inr (k # rest)" "distinct ps"
  shows "distinct rest \<and> k \<notin> set rest \<and> k \<in> set ps \<and> set rest \<subseteq> set ps"
proof -
  have m: "mset (k # rest) = mset ps" using sort_files_mset[OF assms(1)] .
  then have "distinct (k # rest)" using assms(2) by (metis mset_eq_imp_distinct_iff)
  moreover have "set (k # rest) = set ps" using m by (rule mset_eq_setD)
  ultimately show ?thesis by auto
qed

lemma can_delete_cong_at: "fs1 q = fs2 q \<Longrightarrow> can_delete fs1 q = can_delete fs2 q"
  by (simp add: can_delete_def)

lemma removal_row_cong_at: "fs1 q = fs2 q \<Longrightarrow> removal_row fs1 q = removal_row fs2 q"
  by (simp add: removal_row_def can_delete_def)

lemma remove_groups_step:
  "length ps > 1 \<Longrightarrow> sort_files fs strat ps = Inr (k # rest) \<Longrightarrow>
   remove_groups strat ((h, ps) # gs) (removed, fs, lg) =
   remove_groups strat gs (remove_loop k rest (removed, fs, lg))"
  by simp

lemma remove_groups_skip:
  "length ps \<le> 1 \<Longrightarrow>
   remove_groups strat ((h, ps) # gs) (removed, fs, lg) = remove_groups strat gs (removed, fs, lg)"
  by simp

lemma to_remove_sorted:
  "length ps > 1 \<Longrightarrow> sort_files fs strat ps = Inr (k # rest) \<Longrightarrow> to_remove fs strat ps = rest"
  by (simp add: to_remove_def)

lemma remove_groups_exact:
  assumes valid: "valid_strategy strat"
  shows "distinct (concat (map snd gs)) \<Longrightarrow> \<forall>p\<in>set (concat (map snd gs)). fs p \<noteq> None \<Longrightarrow>
    \<exists>lg'. remove_groups strat gs (removed, fs, lg) =
        (Inr (removed @ [p \<leftarrow> attempted fs strat gs. can_delete fs p]),
         (\<lambda>q. if q \<in> set (attempted fs strat gs) \<and> can_delete fs q then None else fs q), lg') \<and>
        log_rows lg' = log_rows lg @ map (removal_row fs) (attempted fs strat gs)"
proof (induction gs arbitrary: removed fs lg)
  case Nil
  then show ?case by (simp add: attempted_def)
next
  case (Cons g gs)
  obtain h ps where g: "g = (h, ps)" by (cases g)
  have dps: "distinct ps" and dgs: "distinct (concat (map snd gs))"
    and disj: "set ps \<inter> set (concat (map snd gs)) = {}"
    using Cons.prems(1) by (auto simp: g)
  have ex_ps: "\<forall>p\<in>set ps. fs p \<noteq> None"
    and ex_gs: "\<forall>p\<in>set (concat (map snd gs)). fs p \<noteq> None"
    using Cons.prems(2) by (auto simp: g)
  show ?case
  proof (cases "length ps \<le> 1")
    case True
    then have tr: "to_remove fs strat ps = []" by (simp add: to_remove_def)
    from Cons.IH[OF dgs ex_gs, of removed lg] show ?thesis
      using True by (simp add: g attempted_Cons tr)
  next
    case False
    then have len: "length ps > 1" and ne: "ps \<noteq> []" by auto
    from sort_files_total[OF valid ne ex_ps] obtain k rest where
      srt: "sort_files fs strat ps = Inr (k # rest)" by blast
    have tr: "to_remove fs strat ps = rest" using to_remove_sorted[OF len srt] .
    from sort_files_distinct_tail[OF srt dps] have drest: "distinct rest"
      and sub: "set rest \<subseteq> set ps" by auto
    define fs1 where "fs1 = (\<lambda>q. if q \<in> set rest \<and> can_delete fs q then None else fs q)"
    from remove_loop_exact[OF drest, of k removed fs lg] obtain lg1 where
      loop: "remove_loop k rest (removed, fs, lg) =
               (removed @ [p \<leftarrow> rest. can_delete fs p], fs1, lg1)"
      and rows1: "log_rows lg1 = log_rows lg @ map (removal_row fs) rest"
      unfolding fs1_def by blast
    have same: "\<And>q. q \<notin> set rest \<Longrightarrow> fs1 q = fs q" by (simp add: fs1_def)
    have same_gs: "\<forall>p\<in>set (concat (map snd gs)). fs1 p = fs p"
      using same sub disj by blast
    have ex_gs1: "\<forall>p\<in>set (concat (map snd gs)). fs1 p \<noteq> None"
      using same_gs ex_gs by simp
    have att: "attempted fs1 strat gs = attempted fs strat gs"
      using same_gs by (rule attempted_cong_on)
    have att_gs: "set (attempted fs strat gs) \<subseteq> set (concat (map snd gs))"
      by (rule attempted_subset)
    from Cons.IH[OF dgs ex_gs1, of "removed @ [p \<leftarrow> rest. can_delete fs p]" lg1]
    obtain lg' where
      res: "remove_groups strat gs (removed @ [p \<leftarrow> rest. can_delete fs p], fs1, lg1) =
         (Inr ((removed @ [p \<leftarrow> rest. can_delete fs p]) @
               [p \<leftarrow> attempted fs strat gs. can_delete fs1 p]),
          (\<lambda>q. if q \<in> set (attempted fs strat gs) \<and> can_delete fs1 q then None else fs1 q), lg')"
      and rows: "log_rows lg' = log_rows lg1 @ map (removal_row fs1) (attempted fs strat gs)"
      unfolding att by blast
    have same_att: "\<And>q. q \<in> set (attempted fs strat gs) \<Longrightarrow> fs1 q = fs q"
      using same_gs att_gs by blast
    have f1: "[p \<leftarrow> attempted fs strat gs. can_delete fs1 p] =
              [p \<leftarrow> attempted fs strat gs. can_delete fs p]"
      by (rule filter_cong[OF refl]) (rule can_delete_cong_at[OF same_att])
    have f3: "map (removal_row fs1) (attempted fs strat gs) =
              map (removal_row fs) (attempted fs strat gs)"
      by (rule map_cong[OF refl]) (rule removal_row_cong_at[OF same_att])
    have f2: "(\<lambda>q. if q \<in> set (attempted fs strat gs) \<and> can_delete fs1 q then None else fs1 q) =
              (\<lambda>q. if q \<in> set (rest @ attempted fs strat gs) \<and> can_delete fs q then None else fs q)"
    proof
      fix q
      show "(if q \<in> set (attempted fs strat gs) \<and> can_delete fs1 q then None else fs1 q) =
            (if q \<in> set (rest @ attempted fs strat gs) \<and> can_delete fs q then None else fs q)"
      proof (cases "q \<in> set rest")
        case True
        then have "q \<notin> set (attempted fs strat gs)" using att_gs sub disj by blast
        then show ?thesis using True by (simp add: fs1_def)
      next
        case False
        then have "fs1 q = fs q" by (rule same)
        then show ?thesis using False can_delete_cong_at[of fs1 q fs] by simp
      qed
    qed
    have "remove_groups strat (g # gs) (removed, fs, lg) =
          remove_groups strat gs (removed @ [p \<leftarrow> rest. can_delete fs p], fs1, lg1)"
      using remove_groups_step[OF len srt] loop by (simp add: g)
    then show ?thesis
      using res rows rows1 f1 f2 f3 by (simp add: g attempted_Cons tr)
  qed
qed

lemma remove_groups_touch:
  "distinct (concat (map snd gs)) \<Longrightarrow>
   remove_groups strat gs (removed, fs, lg) = (res, fs', lg') \<Longrightarrow>
   (\<forall>q. q \<notin> set (attempted fs strat gs) \<longrightarrow> fs' q = fs q) \<and>
   (\<forall>r. res = Inr r \<longrightarrow> set r \<subseteq> set removed \<union> set (attempted fs strat gs))"
proof (induction gs arbitrary: removed fs lg)
  case Nil
  then show ?case by auto
next
  case (Cons g gs)
  obtain h ps where g: "g = (h, ps)" by (cases g)
  have dgs: "distinct (concat (map snd gs))"
    and disj: "set ps \<inter> set (concat (map snd gs)) = {}"
    using Cons.prems(1) by (auto simp: g)
  show ?case
  proof (cases "length ps \<le> 1")
    case True
    then have "remove_groups strat gs (removed, fs, lg) = (res, fs', lg')"
      using Cons.prems(2) by (simp add: g)
    from Cons.IH[OF dgs this] show ?thesis by (auto simp: g attempted_Cons)
  next
    case False
    then have len: "length ps > 1" by simp
    show ?thesis
    proof (cases "sort_files fs strat ps")
      case (Inl e)
      then show ?thesis using Cons.prems(2) len by (auto simp: g)
    next
      case (Inr s)
      show ?thesis
      proof (cases s)
        case Nil
        then show ?thesis using Cons.prems(2) len Inr by (auto simp: g)
      next
        case (Cons k rest)
        then have srt: "sort_files fs strat ps = Inr (k # rest)" using Inr by simp
        have tr: "to_remove fs strat ps = rest" using to_remove_sorted[OF len srt] .
        have sub: "set rest \<subseteq> set ps" using to_remove_subset[of fs strat ps] tr by simp
        obtain removed1 fs1 lg1 where
          loop: "remove_loop k rest (removed, fs, lg) = (removed1, fs1, lg1)"
          by (cases "remove_loop k rest (removed, fs, lg)") auto
        from remove_loop_touch[OF loop] have
          same: "\<And>q. q \<notin> set rest \<Longrightarrow> fs1 q = fs q"
          and rem1: "set removed1 \<subseteq> set removed \<union> set rest" by auto
        have same_gs: "\<forall>p\<in>set (concat (map snd gs)). fs1 p = fs p"
          using same sub disj by blast
        have att: "attempted fs1 strat gs = attempted fs strat gs"
          using same_gs by (rule attempted_cong_on)
        have "remove_groups strat gs (removed1, fs1, lg1) = (res, fs', lg')"
          using remove_groups_step[OF len srt, of h gs removed lg] loop Cons.prems(2)
          by (simp add: g)
        from Cons.IH[OF dgs this] have
          ih1: "\<And>q. q \<notin> set (attempted fs strat gs) \<Longrightarrow> fs' q = fs1 q"
          and ih2: "\<And>r. res = Inr r \<Longrightarrow> set r \<subseteq> set removed1 \<union> set (attempted fs strat gs)"
          unfolding att by auto
        show ?thesis
        proof (intro conjI allI impI)
          fix q assume "q \<notin> set (attempted fs strat (g # gs))"
          then have "q \<notin> set rest" "q \<notin> set (attempted fs strat gs)"
            by (auto simp: g attempted_Cons tr)
          then show "fs' q = fs q" using ih1 same by simp
        next
          fix r assume "res = Inr r"
          then show "set r \<subseteq> set removed \<union> set (attempted fs strat (g # gs))"
            using ih2 rem1 by (auto simp: g attempted_Cons tr)
        qed
      qed
    qed
  qed
qed

lemma remove_loop_best_effort:
  "\<exists>removed' fs' lg' oks.
     remove_loop keep rest (removed, fs, lg) = (removed', fs', lg') \<and>
     length oks = length rest \<and>
     log_rows lg' = log_rows lg @ map status_row (zip rest oks) \<and>
     removed' = removed @ map fst (filter snd (zip rest oks)) \<and>
     (\<forall>q. fs' q = (if q \<in> set (map fst (filter snd (zip rest oks))) then None else fs q))"
proof (induction rest arbitrary: removed fs lg)
  case Nil
  then show ?case by simp
next
  case (Cons p rest)
  show ?case
  proof (cases "can_delete fs p")
    case True
    let ?fs1 = "fs(p := None)"
    let ?lg1 = "log_operation lg ''duplicate_removal'' p None ''success'' (''Kept file: '' @ keep)"
    from Cons.IH[of "removed @ [p]" ?fs1 ?lg1] obtain removed' fs' lg' oks where
      ih: "remove_loop keep rest (removed @ [p], ?fs1, ?lg1) = (removed', fs', lg')"
      "length oks = length rest"
      "log_rows lg' = log_rows ?lg1 @ map status_row (zip rest oks)"
      "removed' = (removed @ [p]) @ map fst (filter snd (zip rest oks))"
      "\<forall>q. fs' q = (if q \<in> set (map fst (filter snd (zip rest oks))) then None else ?fs1 q)"
      by blast
    have step: "remove_loop keep (p # rest) (removed, fs, lg) = (removed', fs', lg')"
      using True ih(1) by (simp add: os_remove_conv)
    have "length (True # oks) = length (p # rest) \<and>
      log_rows lg' = log_rows lg @ map status_row (zip (p # rest) (True # oks)) \<and>
      removed' = removed @ map fst (filter snd (zip (p # rest) (True # oks))) \<and>
      (\<forall>q. fs' q = (if q \<in> set (map fst (filter snd (zip (p # rest) (True # oks)))) then None else fs q))"
      using ih(2-5) by (simp add: log_rows_log_operation status_row_def)
    then show ?thesis using step by blast
  next
    case False
    let ?lg1 = "log_operation lg ''duplicate_removal'' p None ''failure'' (str_of_error OSError)"
    from Cons.IH[of removed fs ?lg1] obtain removed' fs' lg' oks where
      ih: "remove_loop keep rest (removed, fs, ?lg1) = (removed', fs', lg')"
      "length oks = length rest"
      "log_rows lg' = log_rows ?lg1 @ map status_row (zip rest oks)"
      "removed' = removed @ map fst (filter snd (zip rest oks))"
      "\<forall>q. fs' q = (if q \<in> set (map fst (filter snd (zip rest oks))) then None else fs q)"
      by blast
    have step: "remove_loop keep (p # rest) (removed, fs, lg) = (removed', fs', lg')"
      using False ih(1) by (simp add: os_remove_conv)
    have "length (False # oks) = length (p # rest) \<and>
      log_rows lg' = log_rows lg @ map status_row (zip (p # rest) (False # oks)) \<and>
      removed' = removed @ map fst (filter snd (zip (p # rest) (False # oks))) \<and>
      (\<forall>q. fs' q = (if q \<in> set (map fst (filter snd (zip (p # rest) (False # oks)))) then None else fs q))"
      using ih(2-5) by (simp add: log_rows_log_operation status_row_def)
    then show ?thesis using step by blast
  qed
qed

text \<open>
  C6. \<open>remove_duplicates\<close> is best effort. The loop over the members of a group, for
  every list of members and every state, runs to its end: it logs one operation per
  member, in order, with status \<open>success\<close> or \<open>failure\<close>, it returns exactly the
  paths logged as \<open>success\<close>, and exactly those paths are gone from the file system.
  For a valid strategy and a mapping of existing files in which no path occurs twice,
  the function returns (it raises nothing): every member of every group but the retained
  one is attempted, each attempt is logged with status \<open>success\<close> when the file can be
  deleted and \<open>failure\<close> when not, the returned list is exactly the attempted paths
  whose deletion went through, and exactly these are removed.
\<close>

theorem remove_duplicates_best_effort:
  "(\<exists>removed' fs' lg' oks.
      remove_loop keep_file rest (removed, fs, lg) = (removed', fs', lg') \<and>
      length oks = length rest \<and>
      log_rows lg' = log_rows lg @ map status_row (zip rest oks) \<and>
      removed' = removed @ map fst (filter snd (zip rest oks)) \<and>
      (\<forall>q. fs' q = (if q \<in> set (map fst (filter snd (zip rest oks))) then None else fs q))) \<and>
   (valid_strategy keep_strategy \<and> distinct (concat (map snd duplicates)) \<and>
    (\<forall>p\<in>set (concat (map snd duplicates)). fs p \<noteq> None) \<longrightarrow>
    (\<exists>lg'. remove_duplicates duplicates keep_strategy fs lg =
        (Inr [p \<leftarrow> attempted fs keep_strategy duplicates. can_delete fs p],
         (\<lambda>q. if q \<in> set (attempted fs keep_strategy duplicates) \<and> can_delete fs q
              then None else fs q), lg') \<and>
        log_rows lg' =
          log_rows lg @ map (removal_row fs) (attempted fs keep_strategy duplicates)))"
proof (intro conjI impI)
  show "\<exists>removed' fs' lg' oks.
      remove_loop keep_file rest (removed, fs, lg) = (removed', fs', lg') \<and>
      length oks = length rest \<and>
      log_rows lg' = log_rows lg @ map status_row (zip rest oks) \<and>
      removed' = removed @ map fst (filter snd (zip rest oks)) \<and>
      (\<forall>q. fs' q = (if q \<in> set (map fst (filter snd (zip rest oks))) then None else fs q))"
    by (rule remove_loop_best_effort)
next
  assume h: "valid_strategy keep_strategy \<and> distinct (concat (map snd duplicates)) \<and>
    (\<forall>p\<in>set (concat (map snd duplicates)). fs p \<noteq> None)"
  then have v: "valid_strategy keep_strategy" and d: "distinct (concat (map snd duplicates))"
    and e: "\<forall>p\<in>set (concat (map snd duplicates)). fs p \<noteq> None" by blast+
  from remove_groups_exact[OF v d e, of "[]" lg]
  show "\<exists>lg'. remove_duplicates duplicates keep_strategy fs lg =
        (Inr [p \<leftarrow> attempted fs keep_strategy duplicates. can_delete fs p],
         (\<lambda>q. if q \<in> set (attempted fs keep_strategy duplicates) \<and> can_delete fs q
              then None else fs q), lg') \<and>
        log_rows lg' =
          log_rows lg @ map (removal_row fs) (attempted fs keep_strategy duplicates)"
    by (simp add: remove_duplicates_def)
qed

lemma demo_attempted: "attempted demo_fs ''newest'' demo_groups = [''/d/b'', ''/d/a'', ''/d/x'']"
  by (simp add: attempted_def demo_groups_def demo_fs_def to_remove_def sort_files_def
      sorted_py_def getmtime_def plain_file_def)

theorem remove_duplicates_best_effort_witness:
  "fst (remove_duplicates demo_groups ''newest'' demo_fs (init_db 0)) = Inr [''/d/a'', ''/d/x'']"
proof -
  have v: "valid_strategy ''newest''" by (simp add: valid_strategy_def)
  have d: "distinct (concat (map snd demo_groups))" by (simp add: demo_groups_def)
  have e: "\<forall>p\<in>set (concat (map snd demo_groups)). demo_fs p \<noteq> None"
    by (simp add: demo_groups_def demo_fs_def)
  have c: "[p \<leftarrow> attempted demo_fs ''newest'' demo_groups. can_delete demo_fs p] =
           [''/d/a'', ''/d/x'']"
    unfolding demo_attempted by (simp add: can_delete_def demo_fs_def plain_file_def)
  show ?thesis
    using remove_duplicates_best_effort[where keep_strategy="''newest''"
        and duplicates=demo_groups and fs=demo_fs and lg="init_db 0"
        and keep_file="''/d/c''" and rest="[''/d/b'', ''/d/a'']" and removed="[]"] v d e c
    by auto
qed

lemma group_distinct:
  "distinct (concat (map snd gs)) \<Longrightarrow> (h, ps) \<in> set gs \<Longrightarrow> distinct ps"
  by (induction gs) auto

lemma attempted_member:
  "distinct (concat (map snd gs)) \<Longrightarrow> (h, ps) \<in> set gs \<Longrightarrow> p \<in> set ps \<Longrightarrow>
   p \<in> set (attempted fs strat gs) \<Longrightarrow> p \<in> set (to_remove fs strat ps)"
proof (induction gs)
  case Nil
  then show ?case by simp
next
  case (Cons g gs)
  obtain h' ps' where g: "g = (h', ps')" by (cases g)
  have dgs: "distinct (concat (map snd gs))"
    and disj: "set ps' \<inter> set (concat (map snd gs)) = {}"
    using Cons.prems(1) by (auto simp: g)
  have att: "p \<in> set (to_remove fs strat ps') \<or> p \<in> set (attempted fs strat gs)"
    using Cons.prems(4) by (auto simp: g attempted_Cons)
  have sub1: "set (to_remove fs strat ps') \<subseteq> set ps'" by (rule to_remove_subset)
  have sub2: "set (attempted fs strat gs) \<subseteq> set (concat (map snd gs))"
    by (rule attempted_subset)
  show ?case
  proof (cases "(h, ps) \<in> set gs")
    case True
    then have pin: "p \<in> set (concat (map snd gs))" using Cons.prems(3) by force
    then have "p \<notin> set ps'" using disj by blast
    then have "p \<in> set (attempted fs strat gs)" using att sub1 by blast
    then show ?thesis using Cons.IH[OF dgs True Cons.prems(3)] by simp
  next
    case False
    then have eq: "ps = ps'" using Cons.prems(2) by (auto simp: g)
    then have "p \<notin> set (concat (map snd gs))" using Cons.prems(3) disj by blast
    then have "p \<notin> set (attempted fs strat gs)" using sub2 by blast
    then show ?thesis using att eq by simp
  qed
qed

lemma decorate_defined:
  "decorate key ps = Inr ds \<Longrightarrow> p \<in> set ps \<Longrightarrow> \<exists>v. key p = Inr v"
  by (induction ps arbitrary: ds) (auto split: sum.splits)

lemma sort_files_exists:
  assumes "sort_files fs strat ps = Inr s" "p \<in> set ps"
  shows "fs p \<noteq> None"
proof -
  have "(\<exists>v. getmtime fs p = Inr v) \<or> (\<exists>v. getsize fs p = Inr v)"
    using assms
    by (auto simp: sort_files_def sorted_py_def split: if_splits sum.splits
        dest: decorate_defined)
  then show ?thesis by (auto simp: getmtime_def getsize_def split: option.splits)
qed

lemma keep_file_of_sorted:
  "keep_file_of fs strat ps = Inr k \<Longrightarrow> \<exists>rest. sort_files fs strat ps = Inr (k # rest)"
  by (auto simp: keep_file_of_def split: sum.splits list.splits)

lemma small_groups_identity:
  "\<forall>g\<in>set gs. length (snd g) < 2 \<Longrightarrow>
   remove_groups strat gs (removed, fs, lg) = (Inr removed, fs, lg)"
  by (induction gs) auto

text \<open>
  C10 (as amended). For every mapping in which no path occurs twice, within a group or
  across groups, \<open>remove_duplicates\<close> never removes the retained member of a group:
  the head of the strategy-sorted order exists before, is unchanged afterwards and is
  not in the returned list; the members of a group of fewer than two members are left
  unchanged and are not in the returned list. A mapping all of whose groups have fewer
  than two members is skipped entirely: nothing is removed and nothing is logged.
\<close>

theorem retained_member_never_removed:
  "(distinct (concat (map snd duplicates)) \<and> (h, file_paths) \<in> set duplicates \<and>
    remove_duplicates duplicates keep_strategy fs lg = (res, fs', lg') \<longrightarrow>
      (\<forall>keep_file. keep_file_of fs keep_strategy file_paths = Inr keep_file \<longrightarrow>
         fs keep_file \<noteq> None \<and> fs' keep_file = fs keep_file \<and>
         (\<forall>removed. res = Inr removed \<longrightarrow> keep_file \<notin> set removed)) \<and>
      (length file_paths < 2 \<longrightarrow>
         (\<forall>p\<in>set file_paths. fs' p = fs p \<and>
            (\<forall>removed. res = Inr removed \<longrightarrow> p \<notin> set removed)))) \<and>
   ((\<forall>g\<in>set duplicates. length (snd g) < 2) \<longrightarrow>
      remove_duplicates duplicates keep_strategy fs lg = (Inr [], fs, lg))"
proof (intro conjI impI allI ballI)
  assume "\<forall>g\<in>set duplicates. length (snd g) < 2"
  then show "remove_duplicates duplicates keep_strategy fs lg = (Inr [], fs, lg)"
    by (simp add: remove_duplicates_def small_groups_identity)
next
  assume h: "distinct (concat (map snd duplicates)) \<and> (h, file_paths) \<in> set duplicates \<and>
    remove_duplicates duplicates keep_strategy fs lg = (res, fs', lg')"
  then have d: "distinct (concat (map snd duplicates))"
    and m: "(h, file_paths) \<in> set duplicates"
    and r: "remove_groups keep_strategy duplicates ([], fs, lg) = (res, fs', lg')"
    by (simp_all add: remove_duplicates_def)
  from remove_groups_touch[OF d r] have
    untouched: "\<And>q. q \<notin> set (attempted fs keep_strategy duplicates) \<Longrightarrow> fs' q = fs q"
    and removed_sub: "\<And>removed. res = Inr removed \<Longrightarrow>
        set removed \<subseteq> set (attempted fs keep_strategy duplicates)"
    by auto
  have dps: "distinct file_paths" using group_distinct[OF d m] .
  {
    fix keep_file
    assume k: "keep_file_of fs keep_strategy file_paths = Inr keep_file"
    then obtain rest where srt: "sort_files fs keep_strategy file_paths = Inr (keep_file # rest)"
      using keep_file_of_sorted by blast
    from sort_files_distinct_tail[OF srt dps] have kin: "keep_file \<in> set file_paths"
      and knot: "keep_file \<notin> set rest" by auto
    have "keep_file \<notin> set (to_remove fs keep_strategy file_paths)"
      using srt knot by (simp add: to_remove_def)
    then have natt: "keep_file \<notin> set (attempted fs keep_strategy duplicates)"
      using attempted_member[OF d m kin, of fs keep_strategy] by blast
    show "fs keep_file \<noteq> None" using sort_files_exists[OF srt kin] .
    show "fs' keep_file = fs keep_file" using untouched[OF natt] .
    {
      fix removed assume "res = Inr removed"
      then show "keep_file \<notin> set removed" using removed_sub natt by blast
    }
  }
  {
    fix p assume small: "length file_paths < 2" and pin: "p \<in> set file_paths"
    have "to_remove fs keep_strategy file_paths = []"
      using small by (simp add: to_remove_def)
    then have natt: "p \<notin> set (attempted fs keep_strategy duplicates)"
      using attempted_member[OF d m pin, of fs keep_strategy] by auto
    show "fs' p = fs p" using untouched[OF natt] .
    {
      fix removed assume "res = Inr removed"
      then show "p \<notin> set removed" using removed_sub natt by blast
    }
  }
qed

text \<open>
  C10 as stated (for every group) fails for a group that lists one path twice: the path is
  the retained member, and it is removed and returned.
\<close>

theorem retained_member_removed_counterexample:
  "keep_file_of [''/d/a'' \<mapsto> plain_file ''hello'' 1 True] ''newest'' [''/d/a'', ''/d/a''] =
     Inr ''/d/a'' \<and>
   remove_duplicates [(''5d41'', [''/d/a'', ''/d/a''])] ''newest''
     [''/d/a'' \<mapsto> plain_file ''hello'' 1 True] (init_db 0) =
     (Inr [''/d/a''], Map.empty,
      log_operation (init_db 0) ''duplicate_removal'' ''/d/a'' None ''success''
        ''Kept file: /d/a'')"
  by (simp add: keep_file_of_def remove_duplicates_def sort_files_def sorted_py_def
      getmtime_def os_remove_def plain_file_def)

theorem retained_member_never_removed_witness:
  "demo_fs ''/d/c'' \<noteq> None \<and>
   fst (snd (remove_duplicates demo_groups ''newest'' demo_fs (init_db 0))) ''/d/c'' =
     demo_fs ''/d/c'' \<and>
   remove_duplicates [(''5d41'', [''/d/a''])] ''newest'' demo_fs (init_db 0) =
     (Inr [], demo_fs, init_db 0)"
proof -
  obtain res fs' lg' where
    r: "remove_duplicates demo_groups ''newest'' demo_fs (init_db 0) = (res, fs', lg')"
    by (cases "remove_duplicates demo_groups ''newest'' demo_fs (init_db 0)") auto
  have d: "distinct (concat (map snd demo_groups))" by (simp add: demo_groups_def)
  have m: "(''5d41'', [''/d/a'', ''/d/b'', ''/d/c'']) \<in> set demo_groups"
    by (simp add: demo_groups_def)
  have k: "keep_file_of demo_fs ''newest'' [''/d/a'', ''/d/b'', ''/d/c''] = Inr ''/d/c''"
    by (simp add: keep_file_of_def sort_files_def sorted_py_def getmtime_def demo_fs_def
        plain_file_def)
  have "demo_fs ''/d/c'' \<noteq> None \<and> fs' ''/d/c'' = demo_fs ''/d/c''"
    using retained_member_never_removed[where duplicates=demo_groups and h="''5d41''"
        and file_paths="[''/d/a'', ''/d/b'', ''/d/c'']" and keep_strategy="''newest''"
        and fs=demo_fs and lg="init_db 0" and res=res and fs'=fs' and lg'=lg'] r d m k
    by blast
  moreover have "remove_duplicates [(''5d41'', [''/d/a''])] ''newest'' demo_fs (init_db 0) =
     (Inr [], demo_fs, init_db 0)"
    using retained_member_never_removed[where duplicates="[(''5d41'', [''/d/a''])]"
        and keep_strategy="''newest''" and fs=demo_fs and lg="init_db 0"]
    by simp
  ultimately show ?thesis using r by simp
qed

subsection \<open>Statistics\<close>

lemma sum_duplicates_eq: "sum_duplicates gs acc = acc + (\<Sum>g\<leftarrow>gs. extra g)"
  by (induction gs arbitrary: acc) (auto simp: extra_def)

lemma analysable_getsize:
  "analysable fs (h, files) \<Longrightarrow>
   \<exists>f rest. files = f # rest \<and> getsize fs f = Inr (size_of fs f) \<and>
     get_file_type fs f = Inr (type_of fs f) \<and> representative (h, files) = f"
  by (auto simp: analysable_def getsize_def size_of_def get_file_type_def type_of_def
      representative_def split: list.splits option.splits)

lemma sum_space_eq:
  "\<forall>g\<in>set gs. analysable fs g \<Longrightarrow>
   sum_space fs gs acc = Inr (acc + (\<Sum>g\<leftarrow>gs. size_of fs (representative g) * extra g))"
proof (induction gs arbitrary: acc)
  case Nil
  then show ?case by simp
next
  case (Cons g gs)
  obtain h files where g: "g = (h, files)" by (cases g)
  from Cons.prems have "analysable fs (h, files)" by (simp add: g)
  from analysable_getsize[OF this] obtain f rest where
    f: "files = f # rest" "getsize fs f = Inr (size_of fs f)" "representative (h, files) = f"
    by blast
  have "sum_space fs (g # gs) acc =
        sum_space fs gs (acc + size_of fs f * (int (length files) - 1))"
    using f by (simp add: g)
  then show ?case
    using Cons f by (simp add: g extra_def)
qed

lemma size_of_nonneg: "0 \<le> size_of fs p"
  by (simp add: size_of_def split: option.splits)

lemma space_nonneg:
  "\<forall>g\<in>set gs. analysable fs g \<Longrightarrow>
   0 \<le> (\<Sum>g\<leftarrow>gs. size_of fs (representative g) * extra g)"
proof (induction gs)
  case Nil
  then show ?case by simp
next
  case (Cons g gs)
  have "snd g \<noteq> []" using Cons.prems by (auto simp: analysable_def)
  then have "0 \<le> extra g" by (cases "snd g") (auto simp: extra_def)
  then have "0 \<le> size_of fs (representative g) * extra g"
    using size_of_nonneg by simp
  then show ?case using Cons by simp
qed

lemma count_of_update:
  "count_of (AList.update t c tc) t' = (if t' = t then c else count_of tc t')"
  by (simp add: count_of_def update_conv')

lemma get_duplicate_types_eq:
  "\<forall>g\<in>set gs. analysable fs g \<Longrightarrow> distinct (map fst tc) \<Longrightarrow>
   \<exists>tc'. get_duplicate_types fs gs tc = Inr tc' \<and> distinct (map fst tc') \<and>
     fst ` set tc' = fst ` set tc \<union> (\<lambda>g. type_of fs (representative g)) ` set gs \<and>
     (\<forall>t. count_of tc' t =
            count_of tc t + (\<Sum>g\<leftarrow>[g \<leftarrow> gs. type_of fs (representative g) = t]. extra g))"
proof (induction gs arbitrary: tc)
  case Nil
  then show ?case by simp
next
  case (Cons g gs)
  obtain h files where g: "g = (h, files)" by (cases g)
  from Cons.prems have "analysable fs (h, files)" by (simp add: g)
  from analysable_getsize[OF this] obtain f rest where
    f: "files = f # rest" "get_file_type fs f = Inr (type_of fs f)"
       "representative (h, files) = f"
    by blast
  define tc1 where
    "tc1 = AList.update (type_of fs f) (count_of tc (type_of fs f) + extra g) tc"
  have step: "get_duplicate_types fs (g # gs) tc = get_duplicate_types fs gs tc1"
    using f by (simp add: g tc1_def count_of_def extra_def)
  have d1: "distinct (map fst tc1)"
    using Cons.prems(2) by (simp add: tc1_def distinct_update)
  have an: "\<forall>g\<in>set gs. analysable fs g" using Cons.prems(1) by simp
  from Cons.IH[OF an d1] obtain tc' where
    ih: "get_duplicate_types fs gs tc1 = Inr tc'" "distinct (map fst tc')"
    "fst ` set tc' = fst ` set tc1 \<union> (\<lambda>g. type_of fs (representative g)) ` set gs"
    "\<forall>t. count_of tc' t =
        count_of tc1 t + (\<Sum>g\<leftarrow>[g \<leftarrow> gs. type_of fs (representative g) = t]. extra g)"
    by blast
  have keys1: "fst ` set tc1 = insert (type_of fs f) (fst ` set tc)"
    by (simp add: tc1_def dom_update)
  have rep: "representative g = f" using f(3) by (simp add: g)
  have cnt: "\<forall>t. count_of tc' t =
      count_of tc t + (\<Sum>g\<leftarrow>[g \<leftarrow> g # gs. type_of fs (representative g) = t]. extra g)"
    using ih(4) by (auto simp: rep tc1_def count_of_update)
  have keys: "fst ` set tc' =
      fst ` set tc \<union> (\<lambda>g. type_of fs (representative g)) ` set (g # gs)"
    using ih(3) keys1 by (auto simp: rep)
  show ?case using step ih(1,2) cnt keys by simp
qed

lemma sum_space_mono: "sum_space fs gs acc = Inr t \<Longrightarrow> acc \<le> t"
proof (induction gs arbitrary: acc)
  case Nil
  then show ?case by simp
next
  case (Cons g gs)
  obtain h files where g: "g = (h, files)" by (cases g)
  from Cons.prems obtain f rest sz where
    f: "files = f # rest" "getsize fs f = Inr sz"
       "sum_space fs gs (acc + sz * (int (length files) - 1)) = Inr t"
    by (auto simp: g split: list.splits sum.splits)
  have "0 \<le> sz" using f(2) by (auto simp: getsize_def split: option.splits)
  moreover have "0 \<le> int (length files) - 1" using f(1) by simp
  ultimately have "0 \<le> sz * (int (length files) - 1)" by simp
  then show ?case using Cons.IH[OF f(3)] by simp
qed

text \<open>
  C7. For every mapping whose groups are non-empty and whose representatives (the first
  member of each group) can be read, \<open>analyze_duplicates\<close> returns the statistics: the
  number of groups; the number of duplicate files, the sum over the groups of the group
  size minus one; the reclaimable space, the sum over the groups of the group size minus
  one times the size of the representative; and the duplicate count by type, which maps
  the MIME type of a representative to the sum of the group size minus one over the
  groups whose representative has that type, and has no other entry. Whenever the
  function returns, whatever the mapping, the reclaimable space is at least 0.
\<close>

theorem analyze_duplicates_stats:
  "((\<forall>g\<in>set duplicates. analysable fs g) \<longrightarrow>
    (\<exists>st. analyze_duplicates fs duplicates = Inr st \<and>
       total_duplicate_groups st = int (length duplicates) \<and>
       total_duplicate_files st = (\<Sum>g\<leftarrow>duplicates. extra g) \<and>
       potential_space_saved st = (\<Sum>g\<leftarrow>duplicates. size_of fs (representative g) * extra g) \<and>
       distinct (map fst (duplicate_types st)) \<and>
       (\<forall>t. map_of (duplicate_types st) t =
          (if t \<in> (\<lambda>g. type_of fs (representative g)) ` set duplicates
           then Some (\<Sum>g\<leftarrow>[g \<leftarrow> duplicates. type_of fs (representative g) = t]. extra g)
           else None)))) \<and>
   (case analyze_duplicates fs duplicates of
      Inl e \<Rightarrow> True
    | Inr st \<Rightarrow> 0 \<le> potential_space_saved st)"
proof (intro conjI impI)
  assume an: "\<forall>g\<in>set duplicates. analysable fs g"
  have sp: "sum_space fs duplicates 0 =
      Inr (\<Sum>g\<leftarrow>duplicates. size_of fs (representative g) * extra g)"
    using sum_space_eq[OF an, of 0] by simp
  from get_duplicate_types_eq[OF an, of "[]"] obtain tc where
    tc: "get_duplicate_types fs duplicates [] = Inr tc" "distinct (map fst tc)"
    "fst ` set tc = (\<lambda>g. type_of fs (representative g)) ` set duplicates"
    "\<forall>t. count_of tc t = (\<Sum>g\<leftarrow>[g \<leftarrow> duplicates. type_of fs (representative g) = t]. extra g)"
    by (auto simp: count_of_def)
  have look: "map_of tc t =
          (if t \<in> (\<lambda>g. type_of fs (representative g)) ` set duplicates
           then Some (\<Sum>g\<leftarrow>[g \<leftarrow> duplicates. type_of fs (representative g) = t]. extra g)
           else None)" for t
  proof (cases "map_of tc t")
    case None
    then have "t \<notin> fst ` set tc" by (simp add: map_of_eq_None_iff)
    then show ?thesis using None tc(3) by simp
  next
    case (Some c)
    then have "t \<in> fst ` set tc" by (metis map_of_eq_None_iff option.distinct(1))
    moreover have "c = (\<Sum>g\<leftarrow>[g \<leftarrow> duplicates. type_of fs (representative g) = t]. extra g)"
      using tc(4) Some by (auto simp: count_of_def dest: spec[of _ t])
    ultimately show ?thesis using Some tc(3) by simp
  qed
  show "\<exists>st. analyze_duplicates fs duplicates = Inr st \<and>
       total_duplicate_groups st = int (length duplicates) \<and>
       total_duplicate_files st = (\<Sum>g\<leftarrow>duplicates. extra g) \<and>
       potential_space_saved st = (\<Sum>g\<leftarrow>duplicates. size_of fs (representative g) * extra g) \<and>
       distinct (map fst (duplicate_types st)) \<and>
       (\<forall>t. map_of (duplicate_types st) t =
          (if t \<in> (\<lambda>g. type_of fs (representative g)) ` set duplicates
           then Some (\<Sum>g\<leftarrow>[g \<leftarrow> duplicates. type_of fs (representative g) = t]. extra g)
           else None))"
    using sp tc(1,2) look
    by (simp add: analyze_duplicates_def Let_def sum_duplicates_eq)
next
  show "case analyze_duplicates fs duplicates of
      Inl e \<Rightarrow> True
    | Inr st \<Rightarrow> 0 \<le> potential_space_saved st"
    by (auto simp: analyze_duplicates_def Let_def split: sum.splits dest: sum_space_mono)
qed

theorem analyze_duplicates_stats_witness:
  "\<exists>st. analyze_duplicates demo_fs demo_groups = Inr st \<and>
     total_duplicate_groups st = 2 \<and> total_duplicate_files st = 3 \<and>
     potential_space_saved st = 15 \<and> map_of (duplicate_types st) ''text/plain'' = Some 3"
proof -
  have an: "\<forall>g\<in>set demo_groups. analysable demo_fs g"
    by (simp add: demo_groups_def demo_fs_def analysable_def plain_file_def)
  have s1: "(\<Sum>g\<leftarrow>demo_groups. extra g) = 3"
    by (simp add: demo_groups_def extra_def)
  have s2: "(\<Sum>g\<leftarrow>demo_groups. size_of demo_fs (representative g) * extra g) = 15"
    by (simp add: demo_groups_def extra_def representative_def size_of_def demo_fs_def
        plain_file_def)
  have s3: "''text/plain'' \<in> (\<lambda>g. type_of demo_fs (representative g)) ` set demo_groups"
    by (simp add: demo_groups_def representative_def type_of_def demo_fs_def plain_file_def)
  have s4: "(\<Sum>g\<leftarrow>[g \<leftarrow> demo_groups. type_of demo_fs (representative g) = ''text/plain''].
              extra g) = 3"
    by (simp add: demo_groups_def extra_def representative_def type_of_def demo_fs_def
        plain_file_def)
  have s5: "length demo_groups = 2" by (simp add: demo_groups_def)
  from analyze_duplicates_stats[of demo_groups demo_fs] an obtain st where
    st: "analyze_duplicates demo_fs demo_groups = Inr st"
      "total_duplicate_groups st = int (length demo_groups)"
      "total_duplicate_files st = (\<Sum>g\<leftarrow>demo_groups. extra g)"
      "potential_space_saved st =
         (\<Sum>g\<leftarrow>demo_groups. size_of demo_fs (representative g) * extra g)"
      "\<forall>t. map_of (duplicate_types st) t =
          (if t \<in> (\<lambda>g. type_of demo_fs (representative g)) ` set demo_groups
           then Some (\<Sum>g\<leftarrow>[g \<leftarrow> demo_groups. type_of demo_fs (representative g) = t]. extra g)
           else None)"
    by blast
  have "map_of (duplicate_types st) ''text/plain'' = Some 3"
    using st(5) s3 s4 by simp
  then show ?thesis using st(1-4) s1 s2 s5 by simp
qed

section \<open>Properties of the classifier\<close>









section \<open>Properties of the similarity detector\<close>

lemma dict_lookup_nth:
  "distinct (map fst fe) \<Longrightarrow> i < length fe \<Longrightarrow> map_of fe (map fst fe ! i) = Some (snd (fe ! i))"
  by (simp add: nth_mem)

lemma compare_pair_emitted:
  assumes "distinct (map fst fe)" "i < length fe" "j < length fe"
  shows "compare_pair cosine thr fe (map fst fe) i j d = Inr (d @ emitted_at cosine thr fe i j)"
proof -
  have l1: "map_of fe (map fst fe ! i) = Some (snd (fe ! i))"
    and l2: "map_of fe (map fst fe ! j) = Some (snd (fe ! j))"
    using assms by (simp_all add: dict_lookup_nth)
  show ?thesis
    unfolding compare_pair_def Let_def l1 l2
    using assms(2,3)
    by (cases "snd (fe ! i)"; cases "snd (fe ! j)") (simp_all add: emitted_at_def)
qed

lemma inner_loop_emitted:
  assumes "distinct (map fst fe)" "i < length fe"
  shows "\<forall>j\<in>set js. j < length fe \<Longrightarrow>
    inner_loop cosine thr fe (map fst fe) i js d =
      Inr (d @ concat (map (emitted_at cosine thr fe i) js))"
proof (induction js arbitrary: d)
  case Nil
  then show ?case by simp
next
  case (Cons j js)
  have "compare_pair cosine thr fe (map fst fe) i j d = Inr (d @ emitted_at cosine thr fe i j)"
    using assms Cons.prems by (intro compare_pair_emitted) simp_all
  then show ?case using Cons by simp
qed

lemma outer_loop_emitted:
  assumes "distinct (map fst fe)"
  shows "\<forall>i\<in>set idxs. i < length fe \<Longrightarrow>
    outer_loop cosine thr fe (map fst fe) idxs d =
      Inr (d @ concat (map (\<lambda>i. concat (map (emitted_at cosine thr fe i) [i + 1 ..< length fe]))
                        idxs))"
proof (induction idxs arbitrary: d)
  case Nil
  then show ?case by simp
next
  case (Cons i idxs)
  have i: "i < length fe" using Cons.prems by simp
  have "inner_loop cosine thr fe (map fst fe) i [i + 1 ..< length fe] d =
      Inr (d @ concat (map (emitted_at cosine thr fe i) [i + 1 ..< length fe]))"
    using assms i by (intro inner_loop_emitted) simp_all
  then show ?case using Cons by simp
qed

lemma compare_all_emitted:
  assumes "distinct (map fst fe)"
  shows "compare_all cosine thr fe =
    Inr (concat (map (\<lambda>i. concat (map (emitted_at cosine thr fe i) [i + 1 ..< length fe]))
                   [0 ..< length fe]))"
  using outer_loop_emitted[OF assms, of "[0 ..< length fe]" cosine thr "[]"]
  by (simp add: compare_all_def Let_def)

lemma emitted_member:
  "(f1, f2) \<in> set (concat (map (\<lambda>i. concat (map (emitted_at cosine thr fe i) [i + 1 ..< length fe]))
                   [0 ..< length fe])) \<longleftrightarrow>
   (\<exists>i j. i < j \<and> j < length fe \<and> fst (fe ! i) = f1 \<and> fst (fe ! j) = f2 \<and>
      spec_emitted cosine thr (snd (fe ! i)) (snd (fe ! j)))"
  (is "?L \<longleftrightarrow> ?R")
proof
  assume ?L
  then obtain i j where i: "i < length fe" and j: "i + 1 \<le> j" "j < length fe"
    and m: "(f1, f2) \<in> set (emitted_at cosine thr fe i j)"
    by auto
  from m have "spec_emitted cosine thr (snd (fe ! i)) (snd (fe ! j))"
    "fst (fe ! i) = f1" "fst (fe ! j) = f2"
    by (auto simp: emitted_at_def split: if_splits)
  moreover have "i < j" using j(1) by simp
  ultimately show ?R using j(2) by blast
next
  assume ?R
  then obtain i j where ij: "i < j" "j < length fe" "fst (fe ! i) = f1" "fst (fe ! j) = f2"
    "spec_emitted cosine thr (snd (fe ! i)) (snd (fe ! j))"
    by blast
  have m: "(f1, f2) \<in> set (emitted_at cosine thr fe i j)"
    using ij(3-5) by (simp add: emitted_at_def)
  have "j \<in> set [i + 1 ..< length fe]" using ij(1,2) by simp
  then have "(f1, f2) \<in> set (concat (map (emitted_at cosine thr fe i) [i + 1 ..< length fe]))"
    using m by auto
  moreover have "i \<in> set [0 ..< length fe]" using ij(1,2) by simp
  ultimately show ?L by auto
qed

lemma embeddings_loop_dict:
  "distinct (map fst fe0) \<Longrightarrow> embeddings_loop sig_of paths fe0 = Inr fe \<Longrightarrow>
   distinct (map fst fe) \<and>
   (\<forall>p. map_of fe p =
      (if p \<in> set paths \<and> sig_some sig_of p \<noteq> None then sig_some sig_of p else map_of fe0 p))"
proof (induction paths arbitrary: fe0)
  case Nil
  then show ?case by simp
next
  case (Cons q paths)
  show ?case
  proof (cases "sig_of q")
    case (Inl e)
    then show ?thesis using Cons.prems by simp
  next
    case (Inr r)
    show ?thesis
    proof (cases r)
      case None
      then have sq: "sig_some sig_of q = None" using Inr by (simp add: sig_some_def)
      have "embeddings_loop sig_of paths fe0 = Inr fe"
        using Cons.prems(2) Inr None by simp
      from Cons.IH[OF Cons.prems(1) this] have
        d: "distinct (map fst fe)" and
        l: "\<And>p. map_of fe p =
          (if p \<in> set paths \<and> sig_some sig_of p \<noteq> None then sig_some sig_of p
           else map_of fe0 p)"
        by simp_all
      have "map_of fe p =
          (if p \<in> set (q # paths) \<and> sig_some sig_of p \<noteq> None then sig_some sig_of p
           else map_of fe0 p)" for p
        using l[of p] sq by (cases "p = q") auto
      then show ?thesis using d by simp
    next
      case (Some emb)
      then have sq: "sig_some sig_of q = Some emb" using Inr by (simp add: sig_some_def)
      have "embeddings_loop sig_of paths (AList.update q emb fe0) = Inr fe"
        using Cons.prems(2) Inr Some by simp
      from Cons.IH[OF distinct_update[OF Cons.prems(1)] this] have
        d: "distinct (map fst fe)" and
        l: "\<And>p. map_of fe p =
          (if p \<in> set paths \<and> sig_some sig_of p \<noteq> None then sig_some sig_of p
           else map_of (AList.update q emb fe0) p)"
        by simp_all
      have "map_of fe p =
          (if p \<in> set (q # paths) \<and> sig_some sig_of p \<noteq> None then sig_some sig_of p
           else map_of fe0 p)" for p
        using l[of p] sq by (cases "p = q") (auto simp: update_conv')
      then show ?thesis using d by simp
    qed
  qed
qed

text \<open>
  C5. When the first loop of \<open>find_duplicates\<close> has built the dict of signatures, the
  dict has one entry per path that has a signature and none for a path without, and
  the function returns the pairs of the nested scan over the positions \<open>i < j\<close> of the
  dict, in that order: a pair of two hashes is emitted exactly when the hashes are
  equal, a pair of two vectors exactly when their cosine similarity is at least the
  threshold, and a pair of a hash and a vector is never emitted (no score is computed for
  it). No lookup fails.
\<close>

theorem similar_duplicates_by_kind:
  "embeddings_loop sig_of file_paths [] = Inr fe \<longrightarrow>
     distinct (map fst fe) \<and>
     (\<forall>p. map_of fe p = (if p \<in> set file_paths then sig_some sig_of p else None)) \<and>
     similar_duplicates sig_of cosine file_paths thr =
       Inr (concat (map (\<lambda>i. concat (map (emitted_at cosine thr fe i) [i + 1 ..< length fe]))
                      [0 ..< length fe])) \<and>
     (\<forall>dups f1 f2. similar_duplicates sig_of cosine file_paths thr = Inr dups \<longrightarrow>
        ((f1, f2) \<in> set dups \<longleftrightarrow>
         (\<exists>i j. i < j \<and> j < length fe \<and> fst (fe ! i) = f1 \<and> fst (fe ! j) = f2 \<and>
            spec_emitted cosine thr (snd (fe ! i)) (snd (fe ! j)))))"
proof
  assume loop: "embeddings_loop sig_of file_paths [] = Inr fe"
  from embeddings_loop_dict[of "[]" sig_of file_paths fe] loop have
    d: "distinct (map fst fe)" and
    l: "\<And>p. map_of fe p =
      (if p \<in> set file_paths \<and> sig_some sig_of p \<noteq> None then sig_some sig_of p else None)"
    by simp_all
  have l': "map_of fe p = (if p \<in> set file_paths then sig_some sig_of p else None)" for p
    using l[of p] by auto
  have r: "similar_duplicates sig_of cosine file_paths thr =
       Inr (concat (map (\<lambda>i. concat (map (emitted_at cosine thr fe i) [i + 1 ..< length fe]))
                      [0 ..< length fe]))"
    using loop compare_all_emitted[OF d] by (simp add: similar_duplicates_def)
  show "distinct (map fst fe) \<and>
     (\<forall>p. map_of fe p = (if p \<in> set file_paths then sig_some sig_of p else None)) \<and>
     similar_duplicates sig_of cosine file_paths thr =
       Inr (concat (map (\<lambda>i. concat (map (emitted_at cosine thr fe i) [i + 1 ..< length fe]))
                      [0 ..< length fe])) \<and>
     (\<forall>dups f1 f2. similar_duplicates sig_of cosine file_paths thr = Inr dups \<longrightarrow>
        ((f1, f2) \<in> set dups \<longleftrightarrow>
         (\<exists>i j. i < j \<and> j < length fe \<and> fst (fe ! i) = f1 \<and> fst (fe ! j) = f2 \<and>
            spec_emitted cosine thr (snd (fe ! i)) (snd (fe ! j)))))"
    using d l' r emitted_member[of _ _ cosine thr fe] by simp
qed

lemma demo_embeddings:
  "embeddings_loop demo_sig_of [''/d/a.bin'', ''/d/b.txt'', ''/d/c.bin'', ''/d/d.txt'', ''/d/e.txt'']
     [] =
   Inr [(''/d/a.bin'', Hash ''9f86''), (''/d/b.txt'', Vector [1, 0]),
        (''/d/c.bin'', Hash ''9f86''), (''/d/d.txt'', Vector [1, 0])]"
  by (simp add: demo_sig_of_def)

theorem similar_duplicates_by_kind_witness:
  "similar_duplicates demo_sig_of demo_cosine
     [''/d/a.bin'', ''/d/b.txt'', ''/d/c.bin'', ''/d/d.txt'', ''/d/e.txt''] (95 / 100) =
   Inr [(''/d/a.bin'', ''/d/c.bin''), (''/d/b.txt'', ''/d/d.txt'')]"
proof -
  let ?fe = "[(''/d/a.bin'', Hash ''9f86''), (''/d/b.txt'', Vector [1, 0]),
              (''/d/c.bin'', Hash ''9f86''), (''/d/d.txt'', Vector [1, 0])]"
  note r = similar_duplicates_by_kind[of demo_sig_of
        "[''/d/a.bin'', ''/d/b.txt'', ''/d/c.bin'', ''/d/d.txt'', ''/d/e.txt'']" ?fe
        demo_cosine "95 / 100", THEN mp, OF demo_embeddings,
        THEN conjunct2, THEN conjunct2, THEN conjunct1]
  have "concat (map (\<lambda>i. concat (map (emitted_at demo_cosine (95 / 100) ?fe i)
                                      [i + 1 ..< length ?fe])) [0 ..< length ?fe]) =
        [(''/d/a.bin'', ''/d/c.bin''), (''/d/b.txt'', ''/d/d.txt'')]"
    by (simp add: emitted_at_def demo_cosine_def upt_rec)
  then show ?thesis using r by simp
qed

lemma compute_embeddings_never_vector:
  "compute_embeddings guess_type decode sha256 fs depth p \<noteq> Inr (Some (Vector v))"
proof (induction depth arbitrary: p)
  case 0
  then show ?case by simp
next
  case (Suc depth)
  show ?case
  proof (cases "is_text_file guess_type p")
    case True
    show ?thesis
    proof (cases "read_text decode fs p")
      case (Inl e)
      then show ?thesis using True by simp
    next
      case (Inr t)
      then show ?thesis
        using True Suc.IH[of t]
        by (cases "compute_embeddings guess_type decode sha256 fs depth t") simp_all
    qed
  next
    case False
    then show ?thesis by (cases "compute_hash sha256 fs p") simp_all
  qed
qed

text \<open>
  C4 fails on the code. For a readable text file \<open>compute_embeddings\<close> calls itself on
  the text it has read, as if the text were a path; the text \<open>hello world\<close> names no
  file, the exception is caught, and the result is \<open>None\<close>, not an embedding. An
  unreadable binary file does not give \<open>None\<close> either: the exception of
  \<open>compute_hash\<close> leaves the function. For no input at all does \<open>compute_embeddings\<close>
  return a vector.
\<close>

theorem compute_embeddings_text_gives_none:
  "compute_embeddings demo_guess_type (\<lambda>bs. bs) rev
     [''/d/notes.txt'' \<mapsto> plain_file ''hello world'' 1 True] 1000 ''/d/notes.txt'' = Inr None \<and>
   compute_embeddings demo_guess_type (\<lambda>bs. bs) rev
     [''/d/img.bin'' \<mapsto> \<lparr>content = ''abc'', readable = False, deletable = True, mtime = 1,
        ctime = 1, mime = ''application/octet-stream''\<rparr>] 1000 ''/d/img.bin'' = Inl OSError \<and>
   compute_embeddings guess_type decode sha256 fs depth p \<noteq> Inr (Some (Vector v))"
proof (intro conjI)
  let ?fs = "[''/d/notes.txt'' \<mapsto> plain_file ''hello world'' 1 True]"
  let ?fs2 = "[''/d/img.bin'' \<mapsto> \<lparr>content = ''abc'', readable = False, deletable = True,
        mtime = 1, ctime = 1, mime = ''application/octet-stream''\<rparr>]"
  have e1: "snd (splitext ''/d/notes.txt'') = ''.txt''"
    by (simp add: splitext_def rfind_def)
  have e2: "snd (splitext ''hello world'') = []"
    by (simp add: splitext_def rfind_def)
  have e3: "snd (splitext ''/d/img.bin'') = ''.bin''"
    by (simp add: splitext_def rfind_def)
  have inner: "compute_embeddings demo_guess_type (\<lambda>bs. bs) rev ?fs 999 ''hello world'' =
      Inl OSError"
    using compute_embeddings.simps(2)[of demo_guess_type "\<lambda>bs. bs" rev ?fs 998 "''hello world''"]
    by (simp add: is_text_file_def demo_guess_type_def e2 compute_hash_def read_bytes_def)
  show "compute_embeddings demo_guess_type (\<lambda>bs. bs) rev ?fs 1000 ''/d/notes.txt'' = Inr None"
    using compute_embeddings.simps(2)[of demo_guess_type "\<lambda>bs. bs" rev ?fs 999 "''/d/notes.txt''"]
      inner
    by (simp add: is_text_file_def demo_guess_type_def e1 startswith_def read_text_def
        read_bytes_def plain_file_def)
  show "compute_embeddings demo_guess_type (\<lambda>bs. bs) rev ?fs2 1000 ''/d/img.bin'' = Inl OSError"
    using compute_embeddings.simps(2)[of demo_guess_type "\<lambda>bs. bs" rev ?fs2 999 "''/d/img.bin''"]
    by (simp add: is_text_file_def demo_guess_type_def e3 read_bytes_def compute_hash_def)
  show "compute_embeddings guess_type decode sha256 fs depth p \<noteq> Inr (Some (Vector v))"
    by (rule compute_embeddings_never_vector)
qed

end
